theory Spec2Isabelle
  imports Main
begin

section \<open>JavaScript values\<close>

text \<open>
  The values that flow through the classifier and the emulator bridge are plain
  data: what \<^verbatim>\<open>JSON.parse\<close> or an object literal produces. Numbers are
  kept as integers plus \<^verbatim>\<open>NaN\<close>; the program only ever tests a number for
  truthiness, where every fractional number behaves like a nonzero integer.
  An object is the partial map of its own properties.
\<close>

datatype jsval =
    JUndefined
  | JNull
  | JBool bool
  | JNum int
  | JNaN
  | JStr string
  | JArr "jsval list"
  | JObj "string \<Rightarrow> jsval option"

datatype js_error = TypeError | SyntaxError | ReferenceError | Failure string

text \<open>
  \<^verbatim>\<open>k in v\<close>: a \<^verbatim>\<open>TypeError\<close> unless \<open>v\<close> is an object. The keys this
  program asks for (\<^verbatim>\<open>link\<close>, \<^verbatim>\<open>requireRef\<close>, \<^verbatim>\<open>bundle\<close>,
  \<^verbatim>\<open>hash\<close>) are neither array indices nor inherited from a built-in prototype,
  so an array has none of them and an object has one exactly when it is an own property.
\<close>

definition has_property :: "string \<Rightarrow> jsval \<Rightarrow> js_error + bool" where
  "has_property k v =
     (case v of
        JObj m \<Rightarrow> Inr (m k \<noteq> None)
      | JArr xs \<Rightarrow> Inr False
      | _ \<Rightarrow> Inl TypeError)"

text \<open>
  \<^verbatim>\<open>v.k\<close> for the same kind of key: a \<^verbatim>\<open>TypeError\<close> on \<^verbatim>\<open>null\<close> and
  \<^verbatim>\<open>undefined\<close>, \<^verbatim>\<open>undefined\<close> where the property is missing.
\<close>

definition get_prop :: "jsval \<Rightarrow> string \<Rightarrow> js_error + jsval" where
  "get_prop v k =
     (case v of
        JUndefined \<Rightarrow> Inl TypeError
      | JNull \<Rightarrow> Inl TypeError
      | JObj m \<Rightarrow> Inr (case m k of None \<Rightarrow> JUndefined | Some x \<Rightarrow> x)
      | _ \<Rightarrow> Inr JUndefined)"

text \<open>Truthiness, as \<^verbatim>\<open>if (v)\<close> and \<^verbatim>\<open>a && b\<close> test it.\<close>

fun truthy :: "jsval \<Rightarrow> bool" where
  "truthy JUndefined = False"
| "truthy JNull = False"
| "truthy (JBool b) = b"
| "truthy (JNum n) = (n \<noteq> 0)"
| "truthy JNaN = False"
| "truthy (JStr s) = (s \<noteq> [])"
| "truthy (JArr xs) = True"
| "truthy (JObj m) = True"

text \<open>
  \<^verbatim>\<open>a && b\<close> on conditions that may throw: \<open>b\<close> counts only when \<open>a\<close> was
  evaluated without an exception and came out true.
\<close>

definition and_also :: "js_error + bool \<Rightarrow> js_error + bool \<Rightarrow> js_error + bool" where
  "and_also a b = (case a of Inl e \<Rightarrow> Inl e | Inr ok \<Rightarrow> (if ok then b else Inr False))"

definition lift_test :: "(jsval \<Rightarrow> bool) \<Rightarrow> js_error + jsval \<Rightarrow> js_error + bool" where
  "lift_test p r = (case r of Inl e \<Rightarrow> Inl e | Inr v \<Rightarrow> Inr (p v))"

section \<open>Entry classifier (piral-base, inspect.ts)\<close>

datatype pilet_kind = V0 | V1 | V2 | Bundle | Unknown

datatype PiletRunner = setupSinglePilet | setupPiletBundle

type_synonym InspectPiletResult = "pilet_kind \<times> jsval \<times> PiletRunner"

text \<open>
  \<open>inBrowser\<close> is the value of \<^verbatim>\<open>typeof document !== 'undefined'\<close>, a fact of the
  environment and so a parameter. The branches are those of the source, in its order.
\<close>

definition inspectPilet :: "bool \<Rightarrow> jsval \<Rightarrow> js_error + InspectPiletResult" where
  "inspectPilet inBrowser meta =
     (case and_also (Inr inBrowser)
             (and_also (has_property ''link'' meta)
                (lift_test (\<lambda>s. s = JStr ''v2'') (get_prop meta ''spec''))) of
        Inl e \<Rightarrow> Inl e
      | Inr True \<Rightarrow> Inr (V2, meta, setupSinglePilet)
      | Inr False \<Rightarrow>
     (case and_also (Inr inBrowser)
             (and_also (has_property ''requireRef'' meta)
                (lift_test (\<lambda>s. s \<noteq> JStr ''v2'') (get_prop meta ''spec''))) of
        Inl e \<Rightarrow> Inl e
      | Inr True \<Rightarrow> Inr (V1, meta, setupSinglePilet)
      | Inr False \<Rightarrow>
     (case and_also (Inr inBrowser)
             (and_also (has_property ''bundle'' meta)
                (lift_test truthy (get_prop meta ''bundle''))) of
        Inl e \<Rightarrow> Inl e
      | Inr True \<Rightarrow> Inr (Bundle, meta, setupPiletBundle)
      | Inr False \<Rightarrow>
     (case has_property ''hash'' meta of
        Inl e \<Rightarrow> Inl e
      | Inr True \<Rightarrow> Inr (V0, meta, setupSinglePilet)
      | Inr False \<Rightarrow> Inr (Unknown, meta, setupSinglePilet)))))"

text \<open>The shape tests of the five rules, read off a descriptor's own properties.\<close>

definition has_link_v2 :: "(string \<Rightarrow> jsval option) \<Rightarrow> bool" where
  "has_link_v2 m = (m ''link'' \<noteq> None \<and> m ''spec'' = Some (JStr ''v2''))"

definition has_requireRef_not_v2 :: "(string \<Rightarrow> jsval option) \<Rightarrow> bool" where
  "has_requireRef_not_v2 m = (m ''requireRef'' \<noteq> None \<and> m ''spec'' \<noteq> Some (JStr ''v2''))"

definition has_truthy_bundle :: "(string \<Rightarrow> jsval option) \<Rightarrow> bool" where
  "has_truthy_bundle m = (case m ''bundle'' of None \<Rightarrow> False | Some v \<Rightarrow> truthy v)"

definition has_hash :: "(string \<Rightarrow> jsval option) \<Rightarrow> bool" where
  "has_hash m = (m ''hash'' \<noteq> None)"

section \<open>Emulator bridge: the initial module set (installPiletEmulator)\<close>
















section \<open>Emulator bridge: change notifications\<close>

text \<open>
  The handler of the socket, the timers it sets and the promise chains those timers
  start run on one event loop. The model is a state machine over the events of that
  loop: a message arrives, time passes, the browser runs a due timer, the promise of
  \<^verbatim>\<open>removePilet\<close> or of \<^verbatim>\<open>addPilet\<close> settles. A run is any list of such events,
  so every interleaving is covered. The trace records, in order, the calls the bridge
  makes and the settlements it observes.

  A timer handle identifies the reload cycle its callback starts, since every callback
  run creates its own \<^verbatim>\<open>unfreeze\<close>.
\<close>

type_synonym handle = nat

datatype item =
    LocationReload
  | FreezeRouteRefresh handle
  | RemovePilet handle jsval
  | RemoveSettled handle bool
  | AddPilet handle jsval
  | AddSettled handle bool
  | Unfreeze handle

datatype phase = Removing | Adding

text \<open>
  \<open>timeoutCache\<close> holds the own properties of the object \<^verbatim>\<open>timeoutCache\<close>, from
  property key to the handle stored there; \<open>timers\<close> is the browser's table of pending
  timers, each with its deadline and
  the \<^verbatim>\<open>meta\<close> its callback closes over; \<open>cycles\<close> holds the reload cycles whose
  promise chain has not settled yet. A message is handled at the time it arrives, and
  time is counted in milliseconds.
\<close>

record bridge =
  timeoutCache :: "string \<Rightarrow> handle option"
  timers :: "handle \<Rightarrow> (nat \<times> jsval) option"
  next_handle :: handle
  now :: nat
  cycles :: "handle \<Rightarrow> (jsval \<times> phase) option"
  trace :: "item list"

definition initial_bridge :: bridge where
  "initial_bridge =
     \<lparr> timeoutCache = (\<lambda>k. None), timers = (\<lambda>h. None), next_handle = 0, now = 0,
       cycles = (\<lambda>h. None), trace = [] \<rparr>"

definition timeout :: nat where
  "timeout = 150"

text \<open>\<^verbatim>\<open>clearTimeout(timeoutCache[name])\<close>: nothing happens for \<^verbatim>\<open>undefined\<close> or for a
  timer that has run already.\<close>

definition clearTimeout :: "handle option \<Rightarrow> (handle \<Rightarrow> (nat \<times> jsval) option) \<Rightarrow>
    (handle \<Rightarrow> (nat \<times> jsval) option)" where
  "clearTimeout h ts = (case h of None \<Rightarrow> ts | Some i \<Rightarrow> ts(i := None))"

text \<open>
  \<^verbatim>\<open>ws.onmessage\<close>. \<open>flag\<close> is \<^verbatim>\<open>sessionStorage.getItem('dbg:hard-refresh')\<close> as the
  message arrives, \<open>parsed\<close> what \<^verbatim>\<open>JSON.parse(data)\<close> gives. \<open>to_key\<close> turns the
  value of \<^verbatim>\<open>meta.name\<close> into the property key used on \<^verbatim>\<open>timeoutCache\<close>; it is a
  parameter, and everything below holds for each choice of it. An exception from
  \<^verbatim>\<open>JSON.parse\<close> or from reading \<^verbatim>\<open>meta.name\<close> leaves the handler before it has
  changed anything. \<open>schedule_reload\<close> is the pair of statements
  \<^verbatim>\<open>clearTimeout(timeoutCache[name]); timeoutCache[name] = setTimeout(..., timeout)\<close>,
  with a new handle for the new timer.
\<close>

text \<open>
  \<^verbatim>\<open>timeoutCache\<close> is created by the object literal \<^verbatim>\<open>{}\<close>, so it inherits from
  \<^verbatim>\<open>Object.prototype\<close>. For the key \<^verbatim>\<open>__proto__\<close> this shows: reading
  \<^verbatim>\<open>timeoutCache['__proto__']\<close> gives the prototype object, which is no timer handle
  (\<^verbatim>\<open>clearTimeout\<close> of it clears nothing), and assigning a timer handle, a number,
  to it is ignored. Every other inherited property (\<^verbatim>\<open>constructor\<close>,
  \<^verbatim>\<open>toString\<close>, ...) reads as a function before the first assignment, which is no
  handle either, and is shadowed by an own property from then on, as in a map.
\<close>

definition cache_read :: "(string \<Rightarrow> handle option) \<Rightarrow> string \<Rightarrow> handle option" where
  "cache_read cache key = (if key = ''__proto__'' then None else cache key)"

definition cache_write ::
  "(string \<Rightarrow> handle option) \<Rightarrow> string \<Rightarrow> handle \<Rightarrow> (string \<Rightarrow> handle option)" where
  "cache_write cache key h = (if key = ''__proto__'' then cache else cache(key \<mapsto> h))"

definition schedule_reload :: "string \<Rightarrow> jsval \<Rightarrow> bridge \<Rightarrow> bridge" where
  "schedule_reload key meta s =
     (let cleared = clearTimeout (cache_read (timeoutCache s) key) (timers s);
          h = next_handle s
      in s\<lparr> timers := cleared(h \<mapsto> (now s + timeout, meta)),
            timeoutCache := cache_write (timeoutCache s) key h,
            next_handle := Suc h \<rparr>)"

definition onmessage ::
  "(jsval \<Rightarrow> string) \<Rightarrow> string option \<Rightarrow> js_error + jsval \<Rightarrow> bridge \<Rightarrow> bridge" where
  "onmessage to_key flag parsed s =
     (let hardRefresh = (flag = Some ''on'')
      in if \<not> hardRefresh then
           (case parsed of
              Inl e \<Rightarrow> s
            | Inr meta \<Rightarrow>
                (case get_prop meta ''name'' of
                   Inl e \<Rightarrow> s
                 | Inr name \<Rightarrow> schedule_reload (to_key name) meta s))
         else s\<lparr> trace := trace s @ [LocationReload] \<rparr>)"

text \<open>
  The timer's callback:
  \<^verbatim>\<open>
  const unfreeze = freezeRouteRefresh();
  removePilet(meta.name).then(() => addPilet(meta)).then(unfreeze, unfreeze);
  \<close>
  \<^verbatim>\<open>removePilet\<close> is typed to return a promise; the callback ends once it has attached
  the two \<^verbatim>\<open>then\<close> handlers to it.
\<close>

definition timer_callback :: "handle \<Rightarrow> jsval \<Rightarrow> bridge \<Rightarrow> bridge" where
  "timer_callback h meta s =
     (case get_prop meta ''name'' of
        Inl e \<Rightarrow> s\<lparr> trace := trace s @ [FreezeRouteRefresh h] \<rparr>
      | Inr name \<Rightarrow>
          s\<lparr> trace := trace s @ [FreezeRouteRefresh h, RemovePilet h name],
              cycles := (cycles s)(h \<mapsto> (meta, Removing)) \<rparr>)"

text \<open>The browser runs a pending timer, once, and not before its deadline.\<close>

definition fire :: "handle \<Rightarrow> bridge \<Rightarrow> bridge" where
  "fire h s =
     (case timers s h of
        None \<Rightarrow> s
      | Some (deadline, meta) \<Rightarrow>
          (if deadline \<le> now s
           then timer_callback h meta (s\<lparr> timers := (timers s)(h := None) \<rparr>)
           else s))"

text \<open>
  The promise of \<^verbatim>\<open>removePilet(meta.name)\<close> settles. Fulfilled: the first
  \<^verbatim>\<open>then\<close> calls \<^verbatim>\<open>addPilet(meta)\<close>. Rejected: the first \<^verbatim>\<open>then\<close> has no
  rejection handler, so the rejection reaches the second one, which calls
  \<^verbatim>\<open>unfreeze\<close>.
\<close>

definition remove_settled :: "handle \<Rightarrow> bool \<Rightarrow> bridge \<Rightarrow> bridge" where
  "remove_settled h fulfilled s =
     (case cycles s h of
        Some (meta, Removing) \<Rightarrow>
          (if fulfilled
           then s\<lparr> trace := trace s @ [RemoveSettled h True, AddPilet h meta],
                   cycles := (cycles s)(h \<mapsto> (meta, Adding)) \<rparr>
           else s\<lparr> trace := trace s @ [RemoveSettled h False, Unfreeze h],
                   cycles := (cycles s)(h := None) \<rparr>)
      | _ \<Rightarrow> s)"

text \<open>
  What \<^verbatim>\<open>addPilet(meta)\<close> returned settles (an exception thrown by the call itself
  is a rejection of the same promise): \<^verbatim>\<open>then(unfreeze, unfreeze)\<close> calls
  \<^verbatim>\<open>unfreeze\<close> either way.
\<close>

definition add_settled :: "handle \<Rightarrow> bool \<Rightarrow> bridge \<Rightarrow> bridge" where
  "add_settled h fulfilled s =
     (case cycles s h of
        Some (meta, Adding) \<Rightarrow>
          s\<lparr> trace := trace s @ [AddSettled h fulfilled, Unfreeze h],
              cycles := (cycles s)(h := None) \<rparr>
      | _ \<Rightarrow> s)"

datatype event =
    Message "string option" "js_error + jsval"
  | Elapse nat
  | Fire handle
  | RemoveDone handle bool
  | AddDone handle bool

fun step :: "(jsval \<Rightarrow> string) \<Rightarrow> bridge \<Rightarrow> event \<Rightarrow> bridge" where
  "step to_key s (Message flag parsed) = onmessage to_key flag parsed s"
| "step to_key s (Elapse d) = s\<lparr> now := now s + d \<rparr>"
| "step to_key s (Fire h) = fire h s"
| "step to_key s (RemoveDone h ok) = remove_settled h ok s"
| "step to_key s (AddDone h ok) = add_settled h ok s"

definition run :: "(jsval \<Rightarrow> string) \<Rightarrow> bridge \<Rightarrow> event list \<Rightarrow> bridge" where
  "run to_key s es = foldl (step to_key) s es"

text \<open>The property key under which a notification's timer is filed, if its name can be read.\<close>

definition key_of_meta :: "(jsval \<Rightarrow> string) \<Rightarrow> jsval \<Rightarrow> string option" where
  "key_of_meta to_key meta =
     (case get_prop meta ''name'' of Inl e \<Rightarrow> None | Inr name \<Rightarrow> Some (to_key name))"

text \<open>An event that is a change notification filed under key \<open>k\<close> (a message that sets a timer).\<close>

fun notifies :: "(jsval \<Rightarrow> string) \<Rightarrow> string \<Rightarrow> event \<Rightarrow> bool" where
  "notifies to_key k (Message flag (Inr meta)) =
     (flag \<noteq> Some ''on'' \<and> key_of_meta to_key meta = Some k)"
| "notifies to_key k ev = False"

fun elapsed :: "event list \<Rightarrow> nat" where
  "elapsed [] = 0"
| "elapsed (Elapse d # es) = d + elapsed es"
| "elapsed (ev # es) = elapsed es"

text \<open>The reload cycles started for key \<open>k\<close>, as the calls of \<^verbatim>\<open>removePilet\<close> in a trace.\<close>

fun starts_reload :: "(jsval \<Rightarrow> string) \<Rightarrow> string \<Rightarrow> item \<Rightarrow> bool" where
  "starts_reload to_key k (RemovePilet h name) = (to_key name = k)"
| "starts_reload to_key k it = False"

definition reloads :: "(jsval \<Rightarrow> string) \<Rightarrow> string \<Rightarrow> bridge \<Rightarrow> item list" where
  "reloads to_key k s = filter (starts_reload to_key k) (trace s)"

text \<open>The handles of the pending timers filed under key \<open>k\<close>.\<close>

definition pending_for :: "(jsval \<Rightarrow> string) \<Rightarrow> string \<Rightarrow> bridge \<Rightarrow> handle set" where
  "pending_for to_key k s =
     {h. case timers s h of None \<Rightarrow> False | Some (d, meta) \<Rightarrow> key_of_meta to_key meta = Some k}"

text \<open>
  A burst: notifications, each followed by other events (which may be notifications for
  other keys) during which less than the debounce time passes.
\<close>

fun burst :: "(event \<times> event list) list \<Rightarrow> event list" where
  "burst [] = []"
| "burst ((ev, es) # rest) = ev # es @ burst rest"

definition quiet :: "(jsval \<Rightarrow> string) \<Rightarrow> string \<Rightarrow> event list \<Rightarrow> bool" where
  "quiet to_key k es = (list_all (\<lambda>ev. \<not> notifies to_key k ev) es)"

definition in_burst :: "(jsval \<Rightarrow> string) \<Rightarrow> string \<Rightarrow> (event \<times> event list) \<Rightarrow> bool" where
  "in_burst to_key k p =
     (notifies to_key k (fst p) \<and> quiet to_key k (snd p) \<and> elapsed (snd p) < timeout)"

text \<open>The payload of a notification: the parsed \<^verbatim>\<open>meta\<close>.\<close>

fun payload :: "event \<Rightarrow> jsval" where
  "payload (Message flag (Inr meta)) = meta"
| "payload ev = JUndefined"

text \<open>The freeze a cycle holds: calls of \<^verbatim>\<open>freezeRouteRefresh\<close> less calls of its
  \<^verbatim>\<open>unfreeze\<close>.\<close>

definition freezes :: "handle \<Rightarrow> bridge \<Rightarrow> nat" where
  "freezes h s = length (filter (\<lambda>it. it = FreezeRouteRefresh h) (trace s))"

definition unfreezes :: "handle \<Rightarrow> bridge \<Rightarrow> nat" where
  "unfreezes h s = length (filter (\<lambda>it. it = Unfreeze h) (trace s))"

section \<open>Generated dependency table (piral-core, app.codegen)\<close>


datatype assignment = AssignEmpty string | Assign string nat

datatype export_stmt = FillDependencies "assignment list" | OtherExport string
















section \<open>Invariants of the notification state machine\<close>

text \<open>The cycle (timer handle) an entry of the trace belongs to.\<close>

fun item_handle :: "item \<Rightarrow> handle option" where
  "item_handle LocationReload = None"
| "item_handle (FreezeRouteRefresh h) = Some h"
| "item_handle (RemovePilet h name) = Some h"
| "item_handle (RemoveSettled h ok) = Some h"
| "item_handle (AddPilet h meta) = Some h"
| "item_handle (AddSettled h ok) = Some h"
| "item_handle (Unfreeze h) = Some h"

text \<open>
  What holds in every state the bridge can reach: a pending timer is the one that
  \<^verbatim>\<open>timeoutCache\<close> holds for its name, unless the name is \<^verbatim>\<open>__proto__\<close>, under
  which nothing is ever stored; a pending timer has not started a cycle and has left
  nothing in the trace; handles in use are below the next one to be given out; a
  pending timer that \<^verbatim>\<open>timeoutCache\<close> holds under some key was set for that key.
\<close>

definition bridge_inv :: "(jsval \<Rightarrow> string) \<Rightarrow> bridge \<Rightarrow> bool" where
  "bridge_inv to_key s \<longleftrightarrow>
     (\<forall>h d m. timers s h = Some (d, m) \<longrightarrow>
        (\<exists>n. get_prop m ''name'' = Inr n \<and>
             (to_key n \<noteq> ''__proto__'' \<longrightarrow> timeoutCache s (to_key n) = Some h))) \<and>
     timeoutCache s ''__proto__'' = None \<and>
     (\<forall>h. timers s h \<noteq> None \<longrightarrow>
        h < next_handle s \<and> cycles s h = None \<and> (\<forall>it \<in> set (trace s). item_handle it \<noteq> Some h)) \<and>
     (\<forall>h. cycles s h \<noteq> None \<longrightarrow> h < next_handle s) \<and>
     (\<forall>it \<in> set (trace s). \<forall>h. item_handle it = Some h \<longrightarrow> h < next_handle s) \<and>
     (\<forall>k h. timeoutCache s k = Some h \<longrightarrow> h < next_handle s) \<and>
     (\<forall>k h d m. timeoutCache s k = Some h \<and> timers s h = Some (d, m) \<longrightarrow>
        key_of_meta to_key m = Some k)"

text \<open>
  The freeze of cycle \<open>h\<close> is in balance: held once while the cycle is in flight,
  and otherwise released as often as it was taken, at most once.
\<close>

definition balanced_at :: "handle \<Rightarrow> bridge \<Rightarrow> bool" where
  "balanced_at h s \<longleftrightarrow>
     (cycles s h \<noteq> None \<longrightarrow> freezes h s = 1 \<and> unfreezes h s = 0) \<and>
     (cycles s h = None \<longrightarrow> freezes h s = unfreezes h s \<and> freezes h s \<le> 1)"

definition freeze_balanced :: "bridge \<Rightarrow> bool" where
  "freeze_balanced s \<longleftrightarrow> (\<forall>h. balanced_at h s)"

text \<open>
  The order of teardown and reload in a trace: before every call of \<^verbatim>\<open>addPilet\<close>
  made by a cycle lies that cycle's call of \<^verbatim>\<open>removePilet\<close>, with the descriptor's
  name, and between the two the fulfilment of its promise.
\<close>

definition add_follows_remove :: "item list \<Rightarrow> bool" where
  "add_follows_remove tr \<longleftrightarrow>
     (\<forall>pre h meta post. tr = pre @ AddPilet h meta # post \<longrightarrow>
        (\<exists>name before between.
           get_prop meta ''name'' = Inr name \<and>
           pre = before @ RemovePilet h name # between \<and>
           RemoveSettled h True \<in> set between))"

text \<open>A cycle that is tearing down has called \<^verbatim>\<open>removePilet\<close> with its descriptor's name.\<close>

definition removing_called :: "bridge \<Rightarrow> bool" where
  "removing_called s \<longleftrightarrow>
     (\<forall>h m. cycles s h = Some (m, Removing) \<longrightarrow>
        (\<exists>n. get_prop m ''name'' = Inr n \<and> RemovePilet h n \<in> set (trace s)))"

definition ordered_state :: "bridge \<Rightarrow> bool" where
  "ordered_state s \<longleftrightarrow> add_follows_remove (trace s) \<and> removing_called s"

section \<open>Debouncing: the two states of a scheduled reload\<close>

text \<open>
  After a notification for key \<open>k\<close> has set timer \<open>h\<close> with deadline \<open>dl\<close> and
  payload \<open>m\<close>, and as long as no further notification for \<open>k\<close> arrives, the bridge
  is in one of two states. \<open>armed\<close>: the timer is pending and no reload for \<open>k\<close> has
  started since (\<open>base\<close> are the reloads for \<open>k\<close> from before). \<open>fired\<close>: the deadline
  has passed, the timer has run and is gone, no timer for \<open>k\<close> is pending, exactly one
  reload for \<open>k\<close> has started since, for the name in \<open>m\<close>, whatever the cycle
  hands to \<^verbatim>\<open>addPilet\<close> is \<open>m\<close>, and the cycle has got as far as its teardown
  allows (\<open>reload_progress\<close>): the teardown is still running for \<open>m\<close>, or it was
  rejected, or \<^verbatim>\<open>addPilet\<close> has been called with \<open>m\<close>.
\<close>

definition reload_progress :: "handle \<Rightarrow> jsval \<Rightarrow> bridge \<Rightarrow> bool" where
  "reload_progress h m s \<longleftrightarrow>
     cycles s h = Some (m, Removing) \<or>
     RemoveSettled h False \<in> set (trace s) \<or>
     AddPilet h m \<in> set (trace s)"

definition armed ::
  "(jsval \<Rightarrow> string) \<Rightarrow> string \<Rightarrow> handle \<Rightarrow> nat \<Rightarrow> jsval \<Rightarrow> item list \<Rightarrow> bridge \<Rightarrow> bool" where
  "armed to_key k h dl m base s \<longleftrightarrow>
     timers s h = Some (dl, m) \<and> reloads to_key k s = base"

definition fired ::
  "(jsval \<Rightarrow> string) \<Rightarrow> string \<Rightarrow> handle \<Rightarrow> nat \<Rightarrow> jsval \<Rightarrow> item list \<Rightarrow> bridge \<Rightarrow> bool" where
  "fired to_key k h dl m base s \<longleftrightarrow>
     dl \<le> now s \<and> h < next_handle s \<and> timers s h = None \<and>
     pending_for to_key k s = {} \<and>
     (\<exists>n. get_prop m ''name'' = Inr n \<and> reloads to_key k s = base @ [RemovePilet h n]) \<and>
     (\<forall>m' ph. cycles s h = Some (m', ph) \<longrightarrow> m' = m) \<and>
     (\<forall>m'. AddPilet h m' \<in> set (trace s) \<longrightarrow> m' = m) \<and>
     reload_progress h m s"

section \<open>Example inputs\<close>


text \<open>A key function for the examples: the property key of a string name is the string.\<close>

definition string_key :: "jsval \<Rightarrow> string" where
  "string_key v = (case v of JStr s \<Rightarrow> s | _ \<Rightarrow> ''undefined'')"

text \<open>
  The example of the specification: five notifications for \<^verbatim>\<open>a\<close> within 50 ms, each
  with its own payload, the last one sent while the hard-refresh flag is \<^verbatim>\<open>"off"\<close>.
\<close>

definition demo_meta :: "int \<Rightarrow> jsval" where
  "demo_meta i = JObj [''name'' \<mapsto> JStr ''a'', ''version'' \<mapsto> JNum i]"

definition demo_burst :: "(event \<times> event list) list" where
  "demo_burst =
     [(Message None (Inr (demo_meta 1)), [Elapse 10]),
      (Message None (Inr (demo_meta 2)), [Elapse 10]),
      (Message None (Inr (demo_meta 3)), [Elapse 10]),
      (Message None (Inr (demo_meta 4)), [Elapse 10]),
      (Message (Some ''off'') (Inr (demo_meta 5)), [Elapse 10])]"

text \<open>
  The same five notifications for a module named \<^verbatim>\<open>__proto__\<close>, then 140 ms more,
  then the browser running the five timers that were set.
\<close>

definition proto_meta :: "int \<Rightarrow> jsval" where
  "proto_meta i = JObj [''name'' \<mapsto> JStr ''__proto__'', ''version'' \<mapsto> JNum i]"

definition proto_burst :: "(event \<times> event list) list" where
  "proto_burst =
     [(Message None (Inr (proto_meta 1)), [Elapse 10]),
      (Message None (Inr (proto_meta 2)), [Elapse 10]),
      (Message None (Inr (proto_meta 3)), [Elapse 10]),
      (Message None (Inr (proto_meta 4)), [Elapse 10]),
      (Message None (Inr (proto_meta 5)), [Elapse 10])]"

definition proto_events :: "event list" where
  "proto_events = burst proto_burst @ [Elapse 140, Fire 0, Fire 1, Fire 2, Fire 3, Fire 4]"




section \<open>Properties of the classifier\<close>

lemma inspectPilet_object:
  "inspectPilet b (JObj m) =
     Inr (if b \<and> has_link_v2 m then (V2, JObj m, setupSinglePilet)
          else if b \<and> has_requireRef_not_v2 m then (V1, JObj m, setupSinglePilet)
          else if b \<and> has_truthy_bundle m then (Bundle, JObj m, setupPiletBundle)
          else if has_hash m then (V0, JObj m, setupSinglePilet)
          else (Unknown, JObj m, setupSinglePilet))"
  by (auto simp: inspectPilet_def and_also_def lift_test_def has_property_def get_prop_def
        has_link_v2_def has_requireRef_not_v2_def has_truthy_bundle_def has_hash_def
      split: option.splits)

text \<open>
  Claim C1. For every descriptor object the five rules are tried in order and the first
  that matches decides: in a browser, \<^verbatim>\<open>link\<close> present and \<^verbatim>\<open>spec\<close> equal to
  \<^verbatim>\<open>"v2"\<close> gives v2; otherwise, in a browser, \<^verbatim>\<open>requireRef\<close> present and
  \<^verbatim>\<open>spec\<close> different from \<^verbatim>\<open>"v2"\<close> gives v1; otherwise, in a browser, a truthy
  \<^verbatim>\<open>bundle\<close> gives bundle (with the bundle runner); otherwise, browser or not,
  \<^verbatim>\<open>hash\<close> present gives v0; every other descriptor is unknown. The descriptor is
  handed on unchanged.
\<close>

theorem inspectPilet_first_match:
  "(b \<and> has_link_v2 m \<longrightarrow>
      inspectPilet b (JObj m) = Inr (V2, JObj m, setupSinglePilet)) \<and>
   (\<not> (b \<and> has_link_v2 m) \<and> b \<and> has_requireRef_not_v2 m \<longrightarrow>
      inspectPilet b (JObj m) = Inr (V1, JObj m, setupSinglePilet)) \<and>
   (\<not> (b \<and> has_link_v2 m) \<and> \<not> (b \<and> has_requireRef_not_v2 m) \<and> b \<and> has_truthy_bundle m \<longrightarrow>
      inspectPilet b (JObj m) = Inr (Bundle, JObj m, setupPiletBundle)) \<and>
   (\<not> (b \<and> has_link_v2 m) \<and> \<not> (b \<and> has_requireRef_not_v2 m) \<and> \<not> (b \<and> has_truthy_bundle m) \<and>
      has_hash m \<longrightarrow>
      inspectPilet b (JObj m) = Inr (V0, JObj m, setupSinglePilet)) \<and>
   (\<not> (b \<and> has_link_v2 m) \<and> \<not> (b \<and> has_requireRef_not_v2 m) \<and> \<not> (b \<and> has_truthy_bundle m) \<and>
      \<not> has_hash m \<longrightarrow>
      inspectPilet b (JObj m) = Inr (Unknown, JObj m, setupSinglePilet))"
  by (simp add: inspectPilet_object)

text \<open>The rules at the descriptors of the specification's end-to-end examples, and at one
  descriptor for each of the two remaining kinds.\<close>

theorem inspectPilet_first_match_witness:
  "inspectPilet False (JObj [''name'' \<mapsto> JStr ''a'', ''hash'' \<mapsto> JStr ''h1''])
     = Inr (V0, JObj [''name'' \<mapsto> JStr ''a'', ''hash'' \<mapsto> JStr ''h1''], setupSinglePilet) \<and>
   inspectPilet True (JObj [''name'' \<mapsto> JStr ''b'', ''link'' \<mapsto> JStr ''/b.js'', ''spec'' \<mapsto> JStr ''v2''])
     = Inr (V2, JObj [''name'' \<mapsto> JStr ''b'', ''link'' \<mapsto> JStr ''/b.js'', ''spec'' \<mapsto> JStr ''v2''],
            setupSinglePilet) \<and>
   inspectPilet True (JObj [''name'' \<mapsto> JStr ''c'', ''bundle'' \<mapsto> JBool True])
     = Inr (Bundle, JObj [''name'' \<mapsto> JStr ''c'', ''bundle'' \<mapsto> JBool True], setupPiletBundle) \<and>
   inspectPilet True (JObj [''name'' \<mapsto> JStr ''d'', ''requireRef'' \<mapsto> JStr ''r'', ''hash'' \<mapsto> JStr ''h'']) 
     = Inr (V1, JObj [''name'' \<mapsto> JStr ''d'', ''requireRef'' \<mapsto> JStr ''r'', ''hash'' \<mapsto> JStr ''h''], setupSinglePilet) \<and>
   inspectPilet True (JObj [''name'' \<mapsto> JStr ''e''])
     = Inr (Unknown, JObj [''name'' \<mapsto> JStr ''e''], setupSinglePilet)"
  using inspectPilet_first_match [of False "[''name'' \<mapsto> JStr ''a'', ''hash'' \<mapsto> JStr ''h1'']"]
        inspectPilet_first_match [of True "[''name'' \<mapsto> JStr ''b'', ''link'' \<mapsto> JStr ''/b.js'', ''spec'' \<mapsto> JStr ''v2'']"]
        inspectPilet_first_match [of True "[''name'' \<mapsto> JStr ''c'', ''bundle'' \<mapsto> JBool True]"]
        inspectPilet_first_match [of True "[''name'' \<mapsto> JStr ''d'', ''requireRef'' \<mapsto> JStr ''r'', ''hash'' \<mapsto> JStr ''h'']"]
        inspectPilet_first_match [of True "[''name'' \<mapsto> JStr ''e'']"]
  by (simp add: has_link_v2_def has_requireRef_not_v2_def has_truthy_bundle_def has_hash_def)

text \<open>
  Claim C2. Classification of a descriptor object always returns one tagged result and
  raises nothing; a descriptor that has none of the v2, v1, bundle and v0 shapes is
  classified as unknown and paired with the single-module runner, in a browser or not.
  The function reads its argument and the environment and writes nothing, which the
  model shows by being a function of the two.
\<close>

theorem inspectPilet_total:
  "(\<exists>kind runner. inspectPilet b (JObj m) = Inr (kind, JObj m, runner)) \<and>
   (\<not> has_link_v2 m \<and> \<not> has_requireRef_not_v2 m \<and> \<not> has_truthy_bundle m \<and> \<not> has_hash m \<longrightarrow>
      inspectPilet b (JObj m) = Inr (Unknown, JObj m, setupSinglePilet))"
  by (simp add: inspectPilet_object)

text \<open>A descriptor whose \<^verbatim>\<open>requireRef\<close> comes with \<^verbatim>\<open>spec: "v2"\<close> and whose
  \<^verbatim>\<open>bundle\<close> is \<^verbatim>\<open>0\<close> has none of the shapes.\<close>

theorem inspectPilet_total_witness:
  "(\<exists>kind runner. inspectPilet True (JObj [''name'' \<mapsto> JStr ''e'', ''spec'' \<mapsto> JStr ''v2'', ''requireRef'' \<mapsto> JStr ''r'', ''bundle'' \<mapsto> JNum 0])
       = Inr (kind, JObj [''name'' \<mapsto> JStr ''e'', ''spec'' \<mapsto> JStr ''v2'', ''requireRef'' \<mapsto> JStr ''r'', ''bundle'' \<mapsto> JNum 0], runner)) \<and>
   inspectPilet True (JObj [''name'' \<mapsto> JStr ''e'', ''spec'' \<mapsto> JStr ''v2'', ''requireRef'' \<mapsto> JStr ''r'', ''bundle'' \<mapsto> JNum 0])
     = Inr (Unknown, JObj [''name'' \<mapsto> JStr ''e'', ''spec'' \<mapsto> JStr ''v2'', ''requireRef'' \<mapsto> JStr ''r'', ''bundle'' \<mapsto> JNum 0], setupSinglePilet)"
  using inspectPilet_total [of True "[''name'' \<mapsto> JStr ''e'', ''spec'' \<mapsto> JStr ''v2'', ''requireRef'' \<mapsto> JStr ''r'', ''bundle'' \<mapsto> JNum 0]"]
  by (simp add: has_link_v2_def has_requireRef_not_v2_def has_truthy_bundle_def has_hash_def)

section \<open>Properties of the initial module set\<close>














section \<open>Properties of the notification handler\<close>

text \<open>
  Claim C6. A message that arrives while \<^verbatim>\<open>dbg:hard-refresh\<close> is \<^verbatim>\<open>"on"\<close> calls
  \<^verbatim>\<open>location.reload()\<close> and nothing else: whatever the message holds, no timer is
  set or cleared, the timer table is as before, and no reload cycle is touched.
\<close>

theorem hard_refresh_reloads:
  "trace (step to_key s (Message (Some ''on'') parsed)) = trace s @ [LocationReload] \<and>
   timers (step to_key s (Message (Some ''on'') parsed)) = timers s \<and>
   timeoutCache (step to_key s (Message (Some ''on'') parsed)) = timeoutCache s \<and>
   next_handle (step to_key s (Message (Some ''on'') parsed)) = next_handle s \<and>
   cycles (step to_key s (Message (Some ''on'') parsed)) = cycles s \<and>
   now (step to_key s (Message (Some ''on'') parsed)) = now s"
  by (simp add: onmessage_def)

theorem hard_refresh_reloads_witness:
  "trace (step (\<lambda>v. ''x'') initial_bridge (Message (Some ''on'') (Inr (JObj [''name'' \<mapsto> JStr ''a'']))))
     = [LocationReload] \<and>
   timers (step (\<lambda>v. ''x'') initial_bridge (Message (Some ''on'') (Inr (JObj [''name'' \<mapsto> JStr ''a'']))))
     = (\<lambda>h. None)"
  using hard_refresh_reloads
    [of "\<lambda>v. ''x''" initial_bridge "Inr (JObj [''name'' \<mapsto> JStr ''a''])"]
  by (simp add: initial_bridge_def)

section \<open>The invariant holds in every reachable state\<close>

lemma inv_initial: "bridge_inv to_key initial_bridge"
  by (simp add: bridge_inv_def initial_bridge_def)

lemma inv_timer_key:
  "bridge_inv to_key s \<Longrightarrow> timers s h = Some (d, m) \<Longrightarrow>
     \<exists>n. get_prop m ''name'' = Inr n \<and>
         (to_key n \<noteq> ''__proto__'' \<longrightarrow> timeoutCache s (to_key n) = Some h)"
  unfolding bridge_inv_def by blast

lemma inv_proto: "bridge_inv to_key s \<Longrightarrow> timeoutCache s ''__proto__'' = None"
  unfolding bridge_inv_def by blast

lemma inv_cache_read: "bridge_inv to_key s \<Longrightarrow> cache_read (timeoutCache s) k = timeoutCache s k"
  by (simp add: cache_read_def inv_proto)

lemma inv_timer:
  "bridge_inv to_key s \<Longrightarrow> timers s h = Some x \<Longrightarrow>
     h < next_handle s \<and> cycles s h = None \<and> (\<forall>it \<in> set (trace s). item_handle it \<noteq> Some h)"
  unfolding bridge_inv_def by simp

lemma inv_cycle: "bridge_inv to_key s \<Longrightarrow> cycles s h = Some c \<Longrightarrow> h < next_handle s"
  unfolding bridge_inv_def by simp

lemma inv_item: "bridge_inv to_key s \<Longrightarrow> it \<in> set (trace s) \<Longrightarrow> item_handle it = Some h \<Longrightarrow> h < next_handle s"
  unfolding bridge_inv_def by simp

lemma inv_cache: "bridge_inv to_key s \<Longrightarrow> timeoutCache s k = Some h \<Longrightarrow> h < next_handle s"
  unfolding bridge_inv_def by blast

lemma inv_cache_timer:
  "bridge_inv to_key s \<Longrightarrow> timeoutCache s k = Some h \<Longrightarrow> timers s h = Some (d, m) \<Longrightarrow>
     key_of_meta to_key m = Some k"
  unfolding bridge_inv_def by blast

lemma inv_fresh:
  assumes "bridge_inv to_key s" and "next_handle s \<le> h"
  shows "timers s h = None" and "cycles s h = None"
    and "\<forall>it \<in> set (trace s). item_handle it \<noteq> Some h"
proof -
  show "timers s h = None"
    using assms inv_timer [of to_key s h] by (cases "timers s h") auto
  show "cycles s h = None"
    using assms inv_cycle [of to_key s h] by (cases "cycles s h") auto
  show "\<forall>it \<in> set (trace s). item_handle it \<noteq> Some h"
    using assms inv_item [of to_key s _ h] by fastforce
qed

lemma inv_schedule_reload:
  assumes w: "bridge_inv to_key s" and n: "get_prop meta ''name'' = Inr name"
  shows "bridge_inv to_key (schedule_reload (to_key name) meta s)"
proof -
  let ?h = "next_handle s"
  let ?k = "to_key name"
  let ?s' = "schedule_reload ?k meta s"
  have fresh: "timers s ?h = None" "cycles s ?h = None"
    "\<forall>it \<in> set (trace s). item_handle it \<noteq> Some ?h"
    using inv_fresh [OF w, of ?h] by simp_all
  have t': "timers ?s' = (clearTimeout (timeoutCache s ?k) (timers s))(?h \<mapsto> (now s + timeout, meta))"
    and c': "timeoutCache ?s' = cache_write (timeoutCache s) ?k ?h"
    and n': "next_handle ?s' = Suc ?h" and y': "cycles ?s' = cycles s" and r': "trace ?s' = trace s"
    by (simp_all add: schedule_reload_def Let_def inv_cache_read [OF w])
  have cw: "cache_write (timeoutCache s) ?k ?h k = Some h \<longleftrightarrow>
              (if k = ?k \<and> ?k \<noteq> ''__proto__'' then h = ?h else timeoutCache s k = Some h)" for k h
    by (auto simp: cache_write_def)
  have old: "timers s h = Some (d, m) \<and> timeoutCache s ?k \<noteq> Some h"
    if "timers ?s' h = Some (d, m)" "h \<noteq> ?h" for h d m
    using that unfolding t' clearTimeout_def by (auto split: option.splits if_splits)
  have 0: "timeoutCache ?s' ''__proto__'' = None"
    unfolding c' using inv_proto [OF w] by (simp add: cache_write_def)
  have 1: "\<exists>n. get_prop m ''name'' = Inr n \<and>
             (to_key n \<noteq> ''__proto__'' \<longrightarrow> timeoutCache ?s' (to_key n) = Some h)"
    if a: "timers ?s' h = Some (d, m)" for h d m
  proof (cases "h = ?h")
    case True
    then have "m = meta" using a unfolding t' by simp
    then show ?thesis using n True unfolding c' cw by auto
  next
    case False
    from old [OF a False] have o: "timers s h = Some (d, m)" "timeoutCache s ?k \<noteq> Some h" by simp_all
    from inv_timer_key [OF w o(1)] obtain n0 where
      n0: "get_prop m ''name'' = Inr n0"
        "to_key n0 \<noteq> ''__proto__'' \<longrightarrow> timeoutCache s (to_key n0) = Some h" by blast
    have "timeoutCache ?s' (to_key n0) = Some h" if "to_key n0 \<noteq> ''__proto__''"
      using n0(2) that o(2) unfolding c' cw by auto
    then show ?thesis using n0(1) by blast
  qed
  have 2: "h < next_handle ?s' \<and> cycles ?s' h = None \<and> (\<forall>it \<in> set (trace ?s'). item_handle it \<noteq> Some h)"
    if a: "timers ?s' h \<noteq> None" for h
  proof (cases "h = ?h")
    case True
    then show ?thesis using fresh unfolding n' y' r' by simp
  next
    case False
    from a obtain d m where "timers ?s' h = Some (d, m)" by auto
    from old [OF this False] have "timers s h = Some (d, m)" by simp
    from inv_timer [OF w this] show ?thesis unfolding n' y' r' by simp
  qed
  have 3: "h < next_handle ?s'" if "cycles ?s' h \<noteq> None" for h
    using that inv_cycle [OF w, of h] unfolding n' y' by (auto simp: less_Suc_eq)
  have 4: "h < next_handle ?s'" if "it \<in> set (trace ?s')" "item_handle it = Some h" for it h
    using that inv_item [OF w, of it h] unfolding n' r' by (auto simp: less_Suc_eq)
  have 5: "h < next_handle ?s'" if "timeoutCache ?s' k = Some h" for k h
    using that inv_cache [OF w, of k h] unfolding n' c' cw by (auto simp: less_Suc_eq split: if_splits)
  have 6: "key_of_meta to_key m = Some k"
    if a: "timeoutCache ?s' k = Some h" and b: "timers ?s' h = Some (d, m)" for k h d m
  proof (cases "h = ?h")
    case True
    then have "m = meta" using b unfolding t' by simp
    moreover have "k = ?k"
      using a True inv_cache [OF w, of k ?h] unfolding c' cw by (auto split: if_splits)
    ultimately show ?thesis using n by (simp add: key_of_meta_def)
  next
    case False
    from old [OF b False] have o: "timers s h = Some (d, m)" by simp
    have "timeoutCache s k = Some h" using a False unfolding c' cw by (auto split: if_splits)
    from inv_cache_timer [OF w this o] show ?thesis .
  qed
  show ?thesis
    unfolding bridge_inv_def using 0 1 2 3 4 5 6 by blast
qed

lemma inv_reload: "bridge_inv to_key s \<Longrightarrow> bridge_inv to_key (s\<lparr>trace := trace s @ [LocationReload]\<rparr>)"
  unfolding bridge_inv_def by simp

lemma inv_onmessage: "bridge_inv to_key s \<Longrightarrow> bridge_inv to_key (onmessage to_key flag parsed s)"
  unfolding onmessage_def Let_def
  by (simp add: inv_schedule_reload inv_reload split: sum.splits)

lemma inv_fire:
  assumes w: "bridge_inv to_key s"
  shows "bridge_inv to_key (fire h s)"
proof (cases "timers s h")
  case None
  then show ?thesis using w by (simp add: fire_def)
next
  case (Some x)
  obtain d m where x: "x = (d, m)" by (cases x)
  from inv_timer_key [OF w Some [unfolded x]] obtain n where
    n: "get_prop m ''name'' = Inr n" by blast
  from inv_timer [OF w Some] have hb: "h < next_handle s" by simp
  show ?thesis
  proof (cases "d \<le> now s")
    case False
    then show ?thesis using w Some x by (simp add: fire_def)
  next
    case True
    let ?s' = "fire h s"
    have s': "?s' = s\<lparr> timers := (timers s)(h := None),
                       trace := trace s @ [FreezeRouteRefresh h, RemovePilet h n],
                       cycles := (cycles s)(h \<mapsto> (m, Removing)) \<rparr>"
      using Some x True n by (simp add: fire_def timer_callback_def)
    have 0: "timeoutCache ?s' ''__proto__'' = None"
      using inv_proto [OF w] unfolding s' by simp
    have 1: "\<exists>n. get_prop m' ''name'' = Inr n \<and>
               (to_key n \<noteq> ''__proto__'' \<longrightarrow> timeoutCache ?s' (to_key n) = Some h')"
      if "timers ?s' h' = Some (d', m')" for h' d' m'
      using that inv_timer_key [OF w, of h' d' m'] unfolding s' by (auto split: if_splits)
    have 2: "h' < next_handle ?s' \<and> cycles ?s' h' = None \<and>
             (\<forall>it \<in> set (trace ?s'). item_handle it \<noteq> Some h')"
      if "timers ?s' h' \<noteq> None" for h'
      using that inv_timer [OF w, of h'] unfolding s' by (auto split: if_splits)
    have 3: "h' < next_handle ?s'" if "cycles ?s' h' \<noteq> None" for h'
      using that inv_cycle [OF w, of h'] hb unfolding s' by (auto split: if_splits)
    have 4: "h' < next_handle ?s'" if "it \<in> set (trace ?s')" "item_handle it = Some h'" for it h'
      using that inv_item [OF w, of it h'] hb unfolding s' by auto
    have 5: "h' < next_handle ?s'" if "timeoutCache ?s' k' = Some h'" for k' h'
      using that inv_cache [OF w, of k' h'] unfolding s' by simp
    have 6: "key_of_meta to_key m' = Some k'"
      if "timeoutCache ?s' k' = Some h'" "timers ?s' h' = Some (d', m')" for k' h' d' m'
      using that inv_cache_timer [OF w, of k' h' d' m'] unfolding s' by (auto split: if_splits)
    show ?thesis unfolding bridge_inv_def using 0 1 2 3 4 5 6 by blast
  qed
qed

lemma inv_settled:
  assumes w: "bridge_inv to_key s" and m: "cycles s h = Some c"
    and tm: "timers s' = timers s" and tc: "timeoutCache s' = timeoutCache s"
    and nh: "next_handle s' = next_handle s"
    and cy: "\<And>h'. cycles s' h' \<noteq> None \<Longrightarrow> cycles s h' \<noteq> None"
    and tr: "\<And>it. it \<in> set (trace s') \<Longrightarrow> it \<in> set (trace s) \<or> item_handle it = Some h"
  shows "bridge_inv to_key s'"
proof -
  from inv_cycle [OF w m] have hb: "h < next_handle s" .
  have 0: "timeoutCache s' ''__proto__'' = None"
    using inv_proto [OF w] unfolding tc by simp
  have 1: "\<exists>n. get_prop m' ''name'' = Inr n \<and>
             (to_key n \<noteq> ''__proto__'' \<longrightarrow> timeoutCache s' (to_key n) = Some h')"
    if "timers s' h' = Some (d', m')" for h' d' m'
    using that inv_timer_key [OF w, of h' d' m'] unfolding tm tc by simp
  have 2: "h' < next_handle s' \<and> cycles s' h' = None \<and>
           (\<forall>it \<in> set (trace s'). item_handle it \<noteq> Some h')"
    if a: "timers s' h' \<noteq> None" for h'
  proof -
    from a obtain x where x: "timers s h' = Some x" unfolding tm by auto
    from inv_timer [OF w x] have b: "h' < next_handle s" "cycles s h' = None"
      "\<forall>it \<in> set (trace s). item_handle it \<noteq> Some h'" by simp_all
    then have ne: "h' \<noteq> h" using m by auto
    have c0: "cycles s' h' = None"
      using cy [of h'] b(2) by (cases "cycles s' h'") auto
    have "item_handle it \<noteq> Some h'" if "it \<in> set (trace s')" for it
      using tr [OF that] b(3) ne by auto
    then show ?thesis using b(1) c0 unfolding nh by simp
  qed
  have 3: "h' < next_handle s'" if "cycles s' h' \<noteq> None" for h'
    using cy [OF that] inv_cycle [OF w, of h'] unfolding nh by auto
  have 4: "h' < next_handle s'" if "it \<in> set (trace s')" "item_handle it = Some h'" for it h'
    using tr [OF that(1)] that(2) inv_item [OF w, of it h'] hb unfolding nh by auto
  have 5: "h' < next_handle s'" if "timeoutCache s' k' = Some h'" for k' h'
    using that inv_cache [OF w, of k' h'] unfolding nh tc by simp
  have 6: "key_of_meta to_key m' = Some k'"
    if "timeoutCache s' k' = Some h'" "timers s' h' = Some (d', m')" for k' h' d' m'
    using that inv_cache_timer [OF w, of k' h' d' m'] unfolding tm tc by simp
  show ?thesis unfolding bridge_inv_def using 0 1 2 3 4 5 6 by blast
qed

lemma inv_remove_settled:
  assumes w: "bridge_inv to_key s"
  shows "bridge_inv to_key (remove_settled h ok s)"
proof (cases "\<exists>m. cycles s h = Some (m, Removing)")
  case False
  then have "remove_settled h ok s = s"
    by (auto simp: remove_settled_def split: option.splits phase.splits)
  then show ?thesis using w by simp
next
  case True
  then obtain m where m: "cycles s h = Some (m, Removing)" by blast
  show ?thesis
  proof (rule inv_settled [OF w m])
    show "cycles (remove_settled h ok s) h' \<noteq> None \<Longrightarrow> cycles s h' \<noteq> None" for h'
      using m by (auto simp: remove_settled_def split: if_splits)
    show "it \<in> set (trace (remove_settled h ok s)) \<Longrightarrow> it \<in> set (trace s) \<or> item_handle it = Some h" for it
      using m by (auto simp: remove_settled_def split: if_splits)
  qed (use m in \<open>simp_all add: remove_settled_def\<close>)
qed

lemma inv_add_settled:
  assumes w: "bridge_inv to_key s"
  shows "bridge_inv to_key (add_settled h ok s)"
proof (cases "\<exists>m. cycles s h = Some (m, Adding)")
  case False
  then have "add_settled h ok s = s"
    by (auto simp: add_settled_def split: option.splits phase.splits)
  then show ?thesis using w by simp
next
  case True
  then obtain m where m: "cycles s h = Some (m, Adding)" by blast
  show ?thesis
  proof (rule inv_settled [OF w m])
    show "cycles (add_settled h ok s) h' \<noteq> None \<Longrightarrow> cycles s h' \<noteq> None" for h'
      using m by (auto simp: add_settled_def split: if_splits)
    show "it \<in> set (trace (add_settled h ok s)) \<Longrightarrow> it \<in> set (trace s) \<or> item_handle it = Some h" for it
      using m by (auto simp: add_settled_def split: if_splits)
  qed (use m in \<open>simp_all add: add_settled_def\<close>)
qed

lemma inv_step: "bridge_inv to_key s \<Longrightarrow> bridge_inv to_key (step to_key s ev)"
proof (cases ev)
  case (Elapse d)
  assume "bridge_inv to_key s"
  then show ?thesis using Elapse by (simp add: bridge_inv_def)
qed (simp_all add: inv_onmessage inv_fire inv_remove_settled inv_add_settled)

lemma inv_run: "bridge_inv to_key s \<Longrightarrow> bridge_inv to_key (run to_key s es)"
  unfolding run_def by (induction es arbitrary: s) (simp_all add: inv_step)

lemma inv_reachable: "bridge_inv to_key (run to_key initial_bridge es)"
  by (rule inv_run [OF inv_initial])

section \<open>The route-refresh freeze\<close>

lemma run_snoc: "run to_key s (es @ [ev]) = step to_key (run to_key s es) ev"
  by (simp add: run_def)

lemma no_items_no_freeze:
  assumes "\<forall>it \<in> set (trace s). item_handle it \<noteq> Some h"
  shows "freezes h s = 0" and "unfreezes h s = 0"
  using assms by (auto simp: freezes_def unfreezes_def filter_empty_conv)

lemma balanced_initial: "freeze_balanced initial_bridge"
  by (simp add: freeze_balanced_def balanced_at_def initial_bridge_def freezes_def unfreezes_def)

lemma balanced_at_same:
  assumes "balanced_at h s" and "cycles s' h = None \<longleftrightarrow> cycles s h = None"
    and "freezes h s' = freezes h s" and "unfreezes h s' = unfreezes h s"
  shows "balanced_at h s'"
  using assms by (auto simp: balanced_at_def)

lemma balanced_at_acquired:
  assumes "cycles s' h \<noteq> None" and "freezes h s' = 1" and "unfreezes h s' = 0"
  shows "balanced_at h s'"
  using assms unfolding balanced_at_def by simp

lemma balanced_at_released:
  assumes "balanced_at h s" and "cycles s h \<noteq> None" and "cycles s' h = None"
    and "freezes h s' = freezes h s" and "unfreezes h s' = Suc (unfreezes h s)"
  shows "balanced_at h s'"
  using assms unfolding balanced_at_def by simp

lemma balanced_same:
  assumes "freeze_balanced s" and "cycles s' = cycles s"
    and "\<And>h. freezes h s' = freezes h s" and "\<And>h. unfreezes h s' = unfreezes h s"
  shows "freeze_balanced s'"
  unfolding freeze_balanced_def
proof
  fix h
  from assms(1) have "balanced_at h s" unfolding freeze_balanced_def ..
  then show "balanced_at h s'"
    by (rule balanced_at_same) (simp_all add: assms(2-4))
qed

lemma balanced_onmessage:
  assumes "freeze_balanced s"
  shows "freeze_balanced (onmessage to_key flag parsed s)"
  by (rule balanced_same [OF assms])
     (simp_all add: onmessage_def schedule_reload_def Let_def freezes_def unfreezes_def
        split: sum.splits)

lemma fire_enabled:
  assumes "timers s h = Some (d, m)" and "d \<le> now s" and "get_prop m ''name'' = Inr n"
  shows "fire h s = s\<lparr> timers := (timers s)(h := None),
                       trace := trace s @ [FreezeRouteRefresh h, RemovePilet h n],
                       cycles := (cycles s)(h \<mapsto> (m, Removing)) \<rparr>"
  using assms by (simp add: fire_def timer_callback_def)

lemma fire_disabled:
  assumes "timers s h = None \<or> (\<exists>d m. timers s h = Some (d, m) \<and> now s < d)"
  shows "fire h s = s"
  using assms by (auto simp: fire_def)

lemma balanced_fire:
  assumes b: "freeze_balanced s" and w: "bridge_inv to_key s"
  shows "freeze_balanced (fire h s)"
proof (cases "\<exists>d m. timers s h = Some (d, m) \<and> d \<le> now s")
  case False
  then have "fire h s = s" by (intro fire_disabled) (cases "timers s h"; force)
  then show ?thesis using b by simp
next
  case True
  then obtain d m where t: "timers s h = Some (d, m)" "d \<le> now s" by blast
  from inv_timer_key [OF w t(1)] obtain n where n: "get_prop m ''name'' = Inr n" by blast
  note s' = fire_enabled [OF t n]
  from inv_timer [OF w t(1)] have "\<forall>it \<in> set (trace s). item_handle it \<noteq> Some h" by simp
  from no_items_no_freeze [OF this] have z: "freezes h s = 0" "unfreezes h s = 0" .
  have fz: "freezes h' (fire h s) = (if h' = h then 1 else freezes h' s)" for h'
    using z unfolding s' by (auto simp: freezes_def)
  have uz: "unfreezes h' (fire h s) = (if h' = h then 0 else unfreezes h' s)" for h'
    using z unfolding s' by (auto simp: unfreezes_def)
  have cy: "cycles (fire h s) h' = (if h' = h then Some (m, Removing) else cycles s h')" for h'
    unfolding s' by simp
  show ?thesis
    unfolding freeze_balanced_def
  proof
    fix h'
    from b have old: "balanced_at h' s" unfolding freeze_balanced_def ..
    show "balanced_at h' (fire h s)"
    proof (cases "h' = h")
      case True
      show ?thesis by (rule balanced_at_acquired) (use True in \<open>simp_all add: fz uz cy\<close>)
    next
      case False
      show ?thesis by (rule balanced_at_same [OF old]) (use False in \<open>simp_all add: fz uz cy\<close>)
    qed
  qed
qed

lemma remove_settled_fulfilled:
  assumes "cycles s h = Some (m, Removing)"
  shows "remove_settled h True s =
           s\<lparr> trace := trace s @ [RemoveSettled h True, AddPilet h m],
              cycles := (cycles s)(h \<mapsto> (m, Adding)) \<rparr>"
  using assms by (simp add: remove_settled_def)

lemma remove_settled_rejected:
  assumes "cycles s h = Some (m, Removing)"
  shows "remove_settled h False s =
           s\<lparr> trace := trace s @ [RemoveSettled h False, Unfreeze h],
              cycles := (cycles s)(h := None) \<rparr>"
  using assms by (simp add: remove_settled_def)

lemma remove_settled_idle:
  assumes "\<not> (\<exists>m. cycles s h = Some (m, Removing))"
  shows "remove_settled h ok s = s"
  using assms by (auto simp: remove_settled_def split: option.splits phase.splits)

lemma add_settled_any:
  assumes "cycles s h = Some (m, Adding)"
  shows "add_settled h ok s =
           s\<lparr> trace := trace s @ [AddSettled h ok, Unfreeze h],
              cycles := (cycles s)(h := None) \<rparr>"
  using assms by (simp add: add_settled_def)

lemma add_settled_idle:
  assumes "\<not> (\<exists>m. cycles s h = Some (m, Adding))"
  shows "add_settled h ok s = s"
  using assms by (auto simp: add_settled_def split: option.splits phase.splits)

lemma balanced_release:
  assumes b: "freeze_balanced s" and c: "cycles s h \<noteq> None"
    and s': "s' = s\<lparr> trace := trace s @ [x, Unfreeze h], cycles := (cycles s)(h := None) \<rparr>"
    and x': "\<And>h'. x \<noteq> FreezeRouteRefresh h'" "\<And>h'. x \<noteq> Unfreeze h'"
  shows "freeze_balanced s'"
proof -
  have fz: "freezes h' s' = freezes h' s" for h'
    using x' unfolding s' by (auto simp: freezes_def)
  have uz: "unfreezes h' s' = (if h' = h then Suc (unfreezes h s) else unfreezes h' s)" for h'
    using x' unfolding s' by (auto simp: unfreezes_def)
  have cy: "cycles s' h' = (if h' = h then None else cycles s h')" for h'
    unfolding s' by simp
  show ?thesis
    unfolding freeze_balanced_def
  proof
    fix h'
    from b have old: "balanced_at h' s" unfolding freeze_balanced_def ..
    show "balanced_at h' s'"
    proof (cases "h' = h")
      case True
      show ?thesis
        by (rule balanced_at_released [OF old]) (use True c in \<open>simp_all add: fz uz cy\<close>)
    next
      case False
      show ?thesis by (rule balanced_at_same [OF old]) (use False in \<open>simp_all add: fz uz cy\<close>)
    qed
  qed
qed

lemma balanced_remove_settled:
  assumes b: "freeze_balanced s"
  shows "freeze_balanced (remove_settled h ok s)"
proof (cases "\<exists>m. cycles s h = Some (m, Removing)")
  case False
  then show ?thesis using b by (simp add: remove_settled_idle)
next
  case True
  then obtain m where m: "cycles s h = Some (m, Removing)" by blast
  show ?thesis
  proof (cases ok)
    case True
    have "freeze_balanced (remove_settled h True s)"
      unfolding freeze_balanced_def
    proof
      fix h'
      from b have old: "balanced_at h' s" unfolding freeze_balanced_def ..
      show "balanced_at h' (remove_settled h True s)"
        unfolding remove_settled_fulfilled [OF m]
        by (rule balanced_at_same [OF old]) (use m in \<open>simp_all add: freezes_def unfreezes_def\<close>)
    qed
    then show ?thesis using True by simp
  next
    case False
    have "freeze_balanced (remove_settled h False s)"
      by (rule balanced_release [OF b _ remove_settled_rejected [OF m]]) (use m in simp_all)
    then show ?thesis using False by simp
  qed
qed

lemma balanced_add_settled:
  assumes b: "freeze_balanced s"
  shows "freeze_balanced (add_settled h ok s)"
proof (cases "\<exists>m. cycles s h = Some (m, Adding)")
  case False
  then show ?thesis using b by (simp add: add_settled_idle)
next
  case True
  then obtain m where m: "cycles s h = Some (m, Adding)" by blast
  show ?thesis
    by (rule balanced_release [OF b _ add_settled_any [OF m]]) (use m in simp_all)
qed

lemma balanced_step:
  assumes "freeze_balanced s" and "bridge_inv to_key s"
  shows "freeze_balanced (step to_key s ev)"
proof (cases ev)
  case (Message flag parsed)
  then show ?thesis using balanced_onmessage [OF assms(1)] by simp
next
  case (Elapse d)
  show ?thesis unfolding Elapse
    by (rule balanced_same [OF assms(1)]) (simp_all add: freezes_def unfreezes_def)
next
  case (Fire h)
  then show ?thesis using balanced_fire [OF assms] by simp
next
  case (RemoveDone h ok)
  then show ?thesis using balanced_remove_settled [OF assms(1)] by simp
next
  case (AddDone h ok)
  then show ?thesis using balanced_add_settled [OF assms(1)] by simp
qed

lemma balanced_run:
  "freeze_balanced s \<Longrightarrow> bridge_inv to_key s \<Longrightarrow> freeze_balanced (run to_key s es)"
proof (induction es arbitrary: s)
  case Nil
  then show ?case by (simp add: run_def)
next
  case (Cons ev es)
  have "freeze_balanced (run to_key (step to_key s ev) es)"
    by (rule Cons.IH [OF balanced_step [OF Cons.prems] inv_step [OF Cons.prems(2)]])
  then show ?case by (simp add: run_def)
qed

lemma balanced_reachable: "freeze_balanced (run to_key initial_bridge es)"
  by (rule balanced_run [OF balanced_initial inv_initial])

lemma demo_armed:
  "run string_key initial_bridge [Message None (Inr (JObj [''name'' \<mapsto> JStr ''a''])), Elapse 150]
     = \<lparr> timeoutCache = [''a'' \<mapsto> 0], timers = [0 \<mapsto> (150, JObj [''name'' \<mapsto> JStr ''a''])],
         next_handle = 1, now = 150, cycles = (\<lambda>h. None), trace = [] \<rparr>"
  by (simp add: run_def initial_bridge_def onmessage_def schedule_reload_def clearTimeout_def
        cache_read_def cache_write_def get_prop_def string_key_def timeout_def)

text \<open>
  Claim C5. In every reachable state and for every cycle: the freeze is held exactly
  once while the cycle is in flight, and is released as often as it was taken (at most
  once) when it is not. The timer callback takes it first thing; the teardown being
  fulfilled keeps it held while the reload runs; the teardown being rejected, and the
  reload settling either way, each end the cycle with the one release.
\<close>

theorem freeze_taken_and_released_once:
  assumes s: "s = run to_key initial_bridge es"
  shows
    "(cycles s h \<noteq> None \<longrightarrow> freezes h s = 1 \<and> unfreezes h s = 0) \<and>
     (cycles s h = None \<longrightarrow> freezes h s = unfreezes h s \<and> freezes h s \<le> 1) \<and>
     (\<forall>d m. timers s h = Some (d, m) \<and> d \<le> now s \<longrightarrow>
        (\<exists>rest. trace (step to_key s (Fire h)) = trace s @ FreezeRouteRefresh h # rest) \<and>
        cycles (step to_key s (Fire h)) h = Some (m, Removing) \<and>
        freezes h (step to_key s (Fire h)) = 1 \<and>
        unfreezes h (step to_key s (Fire h)) = 0) \<and>
     (\<forall>m. cycles s h = Some (m, Removing) \<longrightarrow>
        cycles (step to_key s (RemoveDone h True)) h = Some (m, Adding) \<and>
        freezes h (step to_key s (RemoveDone h True)) = 1 \<and>
        unfreezes h (step to_key s (RemoveDone h True)) = 0 \<and>
        cycles (step to_key s (RemoveDone h False)) h = None \<and>
        freezes h (step to_key s (RemoveDone h False)) = 1 \<and>
        unfreezes h (step to_key s (RemoveDone h False)) = 1) \<and>
     (\<forall>m ok. cycles s h = Some (m, Adding) \<longrightarrow>
        cycles (step to_key s (AddDone h ok)) h = None \<and>
        freezes h (step to_key s (AddDone h ok)) = 1 \<and>
        unfreezes h (step to_key s (AddDone h ok)) = 1)"
proof -
  have w: "bridge_inv to_key s" unfolding s by (rule inv_reachable)
  have b: "balanced_at h (run to_key initial_bridge es')" for es'
    using balanced_reachable [of to_key es'] unfolding freeze_balanced_def ..
  have after: "balanced_at h (step to_key s ev)" for ev
    using b [of "es @ [ev]"] unfolding run_snoc s .
  have now: "balanced_at h s" using b [of es] unfolding s .
  have counts: "freezes h s' = 1 \<and> unfreezes h s' = 0" if "balanced_at h s'" "cycles s' h \<noteq> None" for s'
    using that unfolding balanced_at_def by simp
  have 1: "cycles s h \<noteq> None \<longrightarrow> freezes h s = 1 \<and> unfreezes h s = 0"
    using now unfolding balanced_at_def by blast
  have 2: "cycles s h = None \<longrightarrow> freezes h s = unfreezes h s \<and> freezes h s \<le> 1"
    using now unfolding balanced_at_def by blast
  have 3: "(\<exists>rest. trace (step to_key s (Fire h)) = trace s @ FreezeRouteRefresh h # rest) \<and>
        cycles (step to_key s (Fire h)) h = Some (m, Removing) \<and>
        freezes h (step to_key s (Fire h)) = 1 \<and>
        unfreezes h (step to_key s (Fire h)) = 0"
    if t: "timers s h = Some (d, m) \<and> d \<le> now s" for d m
  proof -
    from t have t1: "timers s h = Some (d, m)" and t2: "d \<le> now s" by simp_all
    from inv_timer_key [OF w t1] obtain n where n: "get_prop m ''name'' = Inr n" by blast
    have c: "cycles (step to_key s (Fire h)) h = Some (m, Removing)"
      by (simp add: fire_enabled [OF t1 t2 n])
    have tr: "trace (step to_key s (Fire h)) = trace s @ FreezeRouteRefresh h # [RemovePilet h n]"
      by (simp add: fire_enabled [OF t1 t2 n])
    from counts [OF after [of "Fire h"]] c tr show ?thesis by simp
  qed
  have 4: "cycles (step to_key s (RemoveDone h True)) h = Some (m, Adding) \<and>
        freezes h (step to_key s (RemoveDone h True)) = 1 \<and>
        unfreezes h (step to_key s (RemoveDone h True)) = 0 \<and>
        cycles (step to_key s (RemoveDone h False)) h = None \<and>
        freezes h (step to_key s (RemoveDone h False)) = 1 \<and>
        unfreezes h (step to_key s (RemoveDone h False)) = 1"
    if m: "cycles s h = Some (m, Removing)" for m
  proof -
    have c1: "cycles (step to_key s (RemoveDone h True)) h = Some (m, Adding)"
      by (simp add: remove_settled_fulfilled [OF m])
    have c2: "cycles (step to_key s (RemoveDone h False)) h = None"
      by (simp add: remove_settled_rejected [OF m])
    have f: "freezes h s = 1" using 1 m by simp
    have f2: "freezes h (step to_key s (RemoveDone h False)) = freezes h s"
      by (simp add: remove_settled_rejected [OF m] freezes_def)
    have "unfreezes h (step to_key s (RemoveDone h False)) = 1"
      using after [of "RemoveDone h False"] c2 f f2 unfolding balanced_at_def by simp
    then show ?thesis
      using counts [OF after [of "RemoveDone h True"]] c1 c2 f f2 by simp
  qed
  have 5: "cycles (step to_key s (AddDone h ok)) h = None \<and>
        freezes h (step to_key s (AddDone h ok)) = 1 \<and>
        unfreezes h (step to_key s (AddDone h ok)) = 1"
    if m: "cycles s h = Some (m, Adding)" for m ok
  proof -
    have c2: "cycles (step to_key s (AddDone h ok)) h = None"
      by (simp add: add_settled_any [OF m])
    have f: "freezes h s = 1" using 1 m by simp
    have f2: "freezes h (step to_key s (AddDone h ok)) = freezes h s"
      by (simp add: add_settled_any [OF m] freezes_def)
    have "unfreezes h (step to_key s (AddDone h ok)) = 1"
      using after [of "AddDone h ok"] c2 f f2 unfolding balanced_at_def by simp
    then show ?thesis using c2 f f2 by simp
  qed
  show ?thesis using 1 2 3 4 5 by blast
qed

text \<open>One notification for \<^verbatim>\<open>a\<close> and 150 ms later its timer: the cycle starts with
  the freeze taken once.\<close>

theorem freeze_taken_and_released_once_witness:
  "cycles (step string_key
             (run string_key initial_bridge
                [Message None (Inr (JObj [''name'' \<mapsto> JStr ''a''])), Elapse 150])
             (Fire 0)) 0 = Some (JObj [''name'' \<mapsto> JStr ''a''], Removing) \<and>
   freezes 0 (step string_key
             (run string_key initial_bridge
                [Message None (Inr (JObj [''name'' \<mapsto> JStr ''a''])), Elapse 150])
             (Fire 0)) = 1 \<and>
   unfreezes 0 (step string_key
             (run string_key initial_bridge
                [Message None (Inr (JObj [''name'' \<mapsto> JStr ''a''])), Elapse 150])
             (Fire 0)) = 0"
  using freeze_taken_and_released_once
    [of "run string_key initial_bridge
           [Message None (Inr (JObj [''name'' \<mapsto> JStr ''a''])), Elapse 150]"
        string_key "[Message None (Inr (JObj [''name'' \<mapsto> JStr ''a''])), Elapse 150]" 0]
  by (simp add: demo_armed)

section \<open>Teardown before reload\<close>

lemma order_snoc:
  assumes o: "add_follows_remove tr" and x: "\<And>h m. x \<noteq> AddPilet h m"
  shows "add_follows_remove (tr @ [x])"
  unfolding add_follows_remove_def
proof (intro allI impI)
  fix pre h meta post
  assume e: "tr @ [x] = pre @ AddPilet h meta # post"
  show "\<exists>name before between. get_prop meta ''name'' = Inr name \<and>
          pre = before @ RemovePilet h name # between \<and> RemoveSettled h True \<in> set between"
  proof (cases post rule: rev_cases)
    case Nil
    then have "x = AddPilet h meta" using e by simp
    then show ?thesis using x by simp
  next
    case (snoc ys y)
    then have "tr = pre @ AddPilet h meta # ys" using e by simp
    then show ?thesis using o unfolding add_follows_remove_def by blast
  qed
qed

lemma order_snoc_add:
  assumes o: "add_follows_remove tr" and n: "get_prop m ''name'' = Inr n"
    and r: "RemovePilet h n \<in> set tr"
  shows "add_follows_remove (tr @ [RemoveSettled h True, AddPilet h m])"
  unfolding add_follows_remove_def
proof (intro allI impI)
  fix pre h' meta post
  assume e: "tr @ [RemoveSettled h True, AddPilet h m] = pre @ AddPilet h' meta # post"
  show "\<exists>name before between. get_prop meta ''name'' = Inr name \<and>
          pre = before @ RemovePilet h' name # between \<and> RemoveSettled h' True \<in> set between"
  proof (cases post rule: rev_cases)
    case Nil
    have p: "pre = tr @ [RemoveSettled h True]" and eq: "h' = h" "meta = m"
      using e Nil by auto
    from r obtain before rest where "tr = before @ RemovePilet h n # rest"
      by (auto dest: split_list)
    then have "pre = before @ RemovePilet h n # (rest @ [RemoveSettled h True])"
      using p by simp
    then show ?thesis using n eq by fastforce
  next
    case (snoc ys y)
    have e2: "tr @ [RemoveSettled h True] = pre @ AddPilet h' meta # ys"
      using e snoc by auto
    have "add_follows_remove (tr @ [RemoveSettled h True])"
      by (rule order_snoc [OF o]) simp
    then show ?thesis using e2 unfolding add_follows_remove_def by blast
  qed
qed

lemma order_append2:
  assumes "add_follows_remove tr" and "\<And>h m. x \<noteq> AddPilet h m" and "\<And>h m. y \<noteq> AddPilet h m"
  shows "add_follows_remove (tr @ [x, y])"
proof -
  have "add_follows_remove ((tr @ [x]) @ [y])"
    by (intro order_snoc assms)
  then show ?thesis by simp
qed

lemma ordered_initial: "ordered_state initial_bridge"
  by (simp add: ordered_state_def add_follows_remove_def removing_called_def initial_bridge_def)

lemma ordered_onmessage:
  assumes "ordered_state s"
  shows "ordered_state (onmessage to_key flag parsed s)"
proof -
  have "ordered_state (s\<lparr>trace := trace s @ [LocationReload]\<rparr>)"
    using assms order_snoc [of "trace s" LocationReload]
    unfolding ordered_state_def removing_called_def by auto
  moreover have "ordered_state (schedule_reload k m s)" for k m
    using assms unfolding ordered_state_def removing_called_def
    by (simp add: schedule_reload_def Let_def)
  ultimately show ?thesis
    using assms by (simp add: onmessage_def Let_def split: sum.splits)
qed

lemma ordered_fire:
  assumes o: "ordered_state s" and w: "bridge_inv to_key s"
  shows "ordered_state (fire h s)"
proof (cases "\<exists>d m. timers s h = Some (d, m) \<and> d \<le> now s")
  case False
  then have "fire h s = s" by (intro fire_disabled) (cases "timers s h"; force)
  then show ?thesis using o by simp
next
  case True
  then obtain d m where t: "timers s h = Some (d, m)" "d \<le> now s" by blast
  from inv_timer_key [OF w t(1)] obtain n where n: "get_prop m ''name'' = Inr n" by blast
  note s' = fire_enabled [OF t n]
  have a: "add_follows_remove (trace (fire h s))"
    unfolding s' using o order_append2 [of "trace s" "FreezeRouteRefresh h" "RemovePilet h n"]
    by (simp add: ordered_state_def)
  have b: "removing_called (fire h s)"
    using o n unfolding s' ordered_state_def removing_called_def by auto
  show ?thesis using a b by (simp add: ordered_state_def)
qed

lemma ordered_remove_settled:
  assumes o: "ordered_state s"
  shows "ordered_state (remove_settled h ok s)"
proof (cases "\<exists>m. cycles s h = Some (m, Removing)")
  case False
  then show ?thesis using o by (simp add: remove_settled_idle)
next
  case True
  then obtain m where m: "cycles s h = Some (m, Removing)" by blast
  from o m obtain n where n: "get_prop m ''name'' = Inr n" "RemovePilet h n \<in> set (trace s)"
    unfolding ordered_state_def removing_called_def by blast
  show ?thesis
  proof (cases ok)
    case True
    have a: "add_follows_remove (trace (remove_settled h True s))"
      unfolding remove_settled_fulfilled [OF m]
      using o order_snoc_add [OF _ n] by (simp add: ordered_state_def)
    have b: "removing_called (remove_settled h True s)"
      using o unfolding remove_settled_fulfilled [OF m] ordered_state_def removing_called_def
      by auto
    show ?thesis using a b True by (simp add: ordered_state_def)
  next
    case False
    have a: "add_follows_remove (trace (remove_settled h False s))"
      unfolding remove_settled_rejected [OF m]
      using o order_append2 [of "trace s" "RemoveSettled h False" "Unfreeze h"]
      by (simp add: ordered_state_def)
    have b: "removing_called (remove_settled h False s)"
      using o unfolding remove_settled_rejected [OF m] ordered_state_def removing_called_def
      by auto
    show ?thesis using a b False by (simp add: ordered_state_def)
  qed
qed

lemma ordered_add_settled:
  assumes o: "ordered_state s"
  shows "ordered_state (add_settled h ok s)"
proof (cases "\<exists>m. cycles s h = Some (m, Adding)")
  case False
  then show ?thesis using o by (simp add: add_settled_idle)
next
  case True
  then obtain m where m: "cycles s h = Some (m, Adding)" by blast
  have a: "add_follows_remove (trace (add_settled h ok s))"
    unfolding add_settled_any [OF m]
    using o order_append2 [of "trace s" "AddSettled h ok" "Unfreeze h"]
    by (simp add: ordered_state_def)
  have b: "removing_called (add_settled h ok s)"
    using o unfolding add_settled_any [OF m] ordered_state_def removing_called_def
    by auto
  show ?thesis using a b by (simp add: ordered_state_def)
qed

lemma ordered_step:
  assumes "ordered_state s" and "bridge_inv to_key s"
  shows "ordered_state (step to_key s ev)"
proof (cases ev)
  case (Message flag parsed)
  then show ?thesis using ordered_onmessage [OF assms(1)] by simp
next
  case (Elapse d)
  then show ?thesis using assms(1) by (simp add: ordered_state_def removing_called_def)
next
  case (Fire h)
  then show ?thesis using ordered_fire [OF assms] by simp
next
  case (RemoveDone h ok)
  then show ?thesis using ordered_remove_settled [OF assms(1)] by simp
next
  case (AddDone h ok)
  then show ?thesis using ordered_add_settled [OF assms(1)] by simp
qed

lemma ordered_run:
  "ordered_state s \<Longrightarrow> bridge_inv to_key s \<Longrightarrow> ordered_state (run to_key s es)"
proof (induction es arbitrary: s)
  case Nil
  then show ?case by (simp add: run_def)
next
  case (Cons ev es)
  have "ordered_state (run to_key (step to_key s ev) es)"
    by (rule Cons.IH [OF ordered_step [OF Cons.prems] inv_step [OF Cons.prems(2)]])
  then show ?case by (simp add: run_def)
qed

lemma demo_reloading:
  "run string_key initial_bridge
     [Message None (Inr (JObj [''name'' \<mapsto> JStr ''a''])), Elapse 150, Fire 0, RemoveDone 0 True]
     = \<lparr> timeoutCache = [''a'' \<mapsto> 0], timers = (\<lambda>h. None),
         next_handle = 1, now = 150, cycles = [0 \<mapsto> (JObj [''name'' \<mapsto> JStr ''a''], Adding)],
         trace = [FreezeRouteRefresh 0, RemovePilet 0 (JStr ''a''), RemoveSettled 0 True,
                  AddPilet 0 (JObj [''name'' \<mapsto> JStr ''a''])] \<rparr>"
  by (simp add: run_def initial_bridge_def onmessage_def schedule_reload_def clearTimeout_def
        cache_read_def cache_write_def get_prop_def string_key_def timeout_def fire_def
        timer_callback_def remove_settled_def)

text \<open>
  Claim C4. In the trace of every run, whatever the interleaving, each call
  \<^verbatim>\<open>addPilet(meta)\<close> of a reload cycle comes after that cycle's call
  \<^verbatim>\<open>removePilet(meta.name)\<close> and after the fulfilment of the promise that call
  returned. (A rejected teardown is followed by no \<^verbatim>\<open>addPilet\<close> at all, since only
  a fulfilment can stand between the two.)
\<close>

theorem add_only_after_remove_settled:
  assumes "trace (run to_key initial_bridge es) = pre @ AddPilet h meta # post"
  shows "\<exists>name before between.
           get_prop meta ''name'' = Inr name \<and>
           pre = before @ RemovePilet h name # between \<and>
           RemoveSettled h True \<in> set between"
proof -
  have "ordered_state (run to_key initial_bridge es)"
    by (rule ordered_run [OF ordered_initial inv_initial])
  then have "add_follows_remove (trace (run to_key initial_bridge es))"
    by (simp add: ordered_state_def)
  then show ?thesis using assms unfolding add_follows_remove_def by blast
qed

text \<open>One notification, its timer, and the teardown fulfilled: the trace ends with the
  call of \<^verbatim>\<open>addPilet\<close>.\<close>

theorem add_only_after_remove_settled_witness:
  "\<exists>name before between.
     get_prop (JObj [''name'' \<mapsto> JStr ''a'']) ''name'' = Inr name \<and>
     [FreezeRouteRefresh 0, RemovePilet 0 (JStr ''a''), RemoveSettled 0 True]
       = before @ RemovePilet 0 name # between \<and>
     RemoveSettled 0 True \<in> set between"
  using add_only_after_remove_settled
    [of string_key
        "[Message None (Inr (JObj [''name'' \<mapsto> JStr ''a''])), Elapse 150, Fire 0, RemoveDone 0 True]"
        "[FreezeRouteRefresh 0, RemovePilet 0 (JStr ''a''), RemoveSettled 0 True]"
        0 "JObj [''name'' \<mapsto> JStr ''a'']" "[]"]
  by (simp add: demo_reloading)

section \<open>Debouncing\<close>

lemma pending_for_iff:
  "h \<in> pending_for to_key k s \<longleftrightarrow>
     (\<exists>d m. timers s h = Some (d, m) \<and> key_of_meta to_key m = Some k)"
  by (auto simp: pending_for_def split: option.splits)

lemma key_of_meta_Some:
  "key_of_meta to_key m = Some k \<longleftrightarrow> (\<exists>n. get_prop m ''name'' = Inr n \<and> to_key n = k)"
  by (auto simp: key_of_meta_def split: sum.splits)

lemma pending_in_cache:
  assumes w: "bridge_inv to_key s" and p: "h \<in> pending_for to_key k s"
    and k: "k \<noteq> ''__proto__''"
  shows "timeoutCache s k = Some h"
proof -
  from p obtain d m where t: "timers s h = Some (d, m)" and km: "key_of_meta to_key m = Some k"
    unfolding pending_for_iff by blast
  from inv_timer_key [OF w t] obtain n where
    "get_prop m ''name'' = Inr n"
    "to_key n \<noteq> ''__proto__'' \<longrightarrow> timeoutCache s (to_key n) = Some h" by blast
  then show ?thesis using km k by (simp add: key_of_meta_def)
qed

lemma pending_at_most_one:
  assumes "bridge_inv to_key s" and "k \<noteq> ''__proto__''"
    and "h1 \<in> pending_for to_key k s" and "h2 \<in> pending_for to_key k s"
  shows "h1 = h2"
  using pending_in_cache [OF assms(1,3,2)] pending_in_cache [OF assms(1,4,2)] by simp

lemma armed_pending:
  assumes w: "bridge_inv to_key s" and a: "armed to_key k h dl m base s"
    and km: "key_of_meta to_key m = Some k" and k: "k \<noteq> ''__proto__''"
  shows "pending_for to_key k s = {h}"
proof -
  have "h \<in> pending_for to_key k s"
    using a km unfolding armed_def pending_for_iff by blast
  then show ?thesis using pending_at_most_one [OF w k] by blast
qed

lemma not_notifies_message:
  assumes "\<not> notifies to_key k (Message flag parsed)"
  shows "onmessage to_key flag parsed s = s
       \<or> onmessage to_key flag parsed s = s\<lparr>trace := trace s @ [LocationReload]\<rparr>
       \<or> (\<exists>meta n. get_prop meta ''name'' = Inr n \<and> to_key n \<noteq> k \<and>
             onmessage to_key flag parsed s = schedule_reload (to_key n) meta s)"
proof (cases "flag = Some ''on''")
  case True
  then show ?thesis by (simp add: onmessage_def)
next
  case False
  show ?thesis
  proof (cases parsed)
    case (Inl e)
    then show ?thesis using False by (simp add: onmessage_def)
  next
    case (Inr meta)
    show ?thesis
    proof (cases "get_prop meta ''name''")
      case (Inl e)
      then show ?thesis using False Inr by (simp add: onmessage_def)
    next
      case (Inr n)
      have "to_key n \<noteq> k"
        using assms False \<open>parsed = Inr meta\<close> Inr by (simp add: key_of_meta_def)
      then show ?thesis using False \<open>parsed = Inr meta\<close> Inr by (auto simp: onmessage_def)
    qed
  qed
qed

lemma schedule_fields:
  "timers (schedule_reload k' meta s) =
     (clearTimeout (cache_read (timeoutCache s) k') (timers s))
       (next_handle s \<mapsto> (now s + timeout, meta))"
  "timeoutCache (schedule_reload k' meta s) = cache_write (timeoutCache s) k' (next_handle s)"
  "next_handle (schedule_reload k' meta s) = Suc (next_handle s)"
  "cycles (schedule_reload k' meta s) = cycles s"
  "trace (schedule_reload k' meta s) = trace s"
  "now (schedule_reload k' meta s) = now s"
  by (simp_all add: schedule_reload_def Let_def)

lemma schedule_keeps_other:
  assumes w: "bridge_inv to_key s" and t: "timers s h = Some (dl, m)"
    and km: "key_of_meta to_key m = Some k" and ne: "k' \<noteq> k"
  shows "timers (schedule_reload k' meta s) h = Some (dl, m)"
proof -
  have "h < next_handle s" using inv_timer [OF w t] by simp
  moreover have "timeoutCache s k' \<noteq> Some h"
    using inv_cache_timer [OF w _ t, of k'] km ne by auto
  then have "cache_read (timeoutCache s) k' \<noteq> Some h"
    by (simp add: cache_read_def)
  ultimately show ?thesis
    using t unfolding schedule_fields clearTimeout_def by (auto split: option.splits)
qed

lemma schedule_pending_subset:
  assumes "get_prop meta ''name'' = Inr n" and "to_key n \<noteq> k"
  shows "pending_for to_key k (schedule_reload (to_key n) meta s) \<subseteq> pending_for to_key k s"
  using assms unfolding pending_for_iff subset_iff schedule_fields clearTimeout_def
  by (auto simp: key_of_meta_def split: option.splits if_splits)

lemma armed_step:
  assumes w: "bridge_inv to_key s" and km: "key_of_meta to_key m = Some k"
    and q: "\<not> notifies to_key k ev" and a: "armed to_key k h dl m base s"
    and k: "k \<noteq> ''__proto__''"
  shows "armed to_key k h dl m base (step to_key s ev) \<or> fired to_key k h dl m base (step to_key s ev)"
proof -
  from a have t: "timers s h = Some (dl, m)" and r: "reloads to_key k s = base"
    by (simp_all add: armed_def)
  from km obtain n where n: "get_prop m ''name'' = Inr n" "to_key n = k"
    unfolding key_of_meta_Some by blast
  note it = inv_timer [OF w t]
  show ?thesis
  proof (cases ev)
    case (Message flag parsed)
    from not_notifies_message [OF q [unfolded Message], of s]
    consider "onmessage to_key flag parsed s = s"
      | "onmessage to_key flag parsed s = s\<lparr>trace := trace s @ [LocationReload]\<rparr>"
      | meta n' where "get_prop meta ''name'' = Inr n'" "to_key n' \<noteq> k"
          "onmessage to_key flag parsed s = schedule_reload (to_key n') meta s"
      by blast
    then have "armed to_key k h dl m base (onmessage to_key flag parsed s)"
    proof cases
      case 1
      then show ?thesis using a by simp
    next
      case 2
      then show ?thesis using t r by (simp add: armed_def reloads_def)
    next
      case 3
      have "timers (schedule_reload (to_key n') meta s) h = Some (dl, m)"
        by (rule schedule_keeps_other [OF w t km 3(2)])
      then show ?thesis using r 3(3) by (simp add: armed_def reloads_def schedule_fields)
    qed
    then show ?thesis using Message by simp
  next
    case (Elapse d)
    then show ?thesis using t r by (simp add: armed_def reloads_def)
  next
    case (Fire h')
    show ?thesis
    proof (cases "\<exists>d' m'. timers s h' = Some (d', m') \<and> d' \<le> now s")
      case False
      then have "fire h' s = s" by (intro fire_disabled) (cases "timers s h'"; force)
      then show ?thesis using a Fire by simp
    next
      case True
      then obtain d' m' where t': "timers s h' = Some (d', m')" "d' \<le> now s" by blast
      from inv_timer_key [OF w t'(1)] obtain n' where
        n': "get_prop m' ''name'' = Inr n'" by blast
      note s' = fire_enabled [OF t' n']
      show ?thesis
      proof (cases "h' = h")
        case True
        then have eq: "d' = dl" "m' = m" "n' = n" using t t'(1) n n' by simp_all
        have p: "pending_for to_key k (fire h s) = {}"
        proof (rule ccontr)
          assume "pending_for to_key k (fire h s) \<noteq> {}"
          then obtain h2 where h2: "h2 \<in> pending_for to_key k (fire h s)" by blast
          then have "h2 \<noteq> h" "h2 \<in> pending_for to_key k s"
            unfolding pending_for_iff s' [unfolded True] by (auto split: if_splits)
          moreover have "h \<in> pending_for to_key k s"
            using t km unfolding pending_for_iff by blast
          ultimately show False using pending_at_most_one [OF w k] by blast
        qed
        have "fired to_key k h dl m base (fire h s)"
          unfolding fired_def
        proof (intro conjI allI impI)
          show "dl \<le> now (fire h s)" using t'(2) eq unfolding s' [unfolded True] by simp
          show "h < next_handle (fire h s)" using it unfolding s' [unfolded True] by simp
          show "timers (fire h s) h = None" unfolding s' [unfolded True] by simp
          show "pending_for to_key k (fire h s) = {}" by (rule p)
          show "\<exists>n. get_prop m ''name'' = Inr n \<and>
                  reloads to_key k (fire h s) = base @ [RemovePilet h n]"
            using n r eq unfolding s' [unfolded True] by (auto simp: reloads_def)
          show "m'' = m" if "cycles (fire h s) h = Some (m'', ph)" for m'' ph
            using that eq unfolding s' [unfolded True] by simp
          show "m'' = m" if "AddPilet h m'' \<in> set (trace (fire h s))" for m''
            using that it unfolding s' [unfolded True] by auto
          show "reload_progress h m (fire h s)"
            using eq unfolding s' [unfolded True] reload_progress_def by simp
        qed
        then show ?thesis using Fire True by simp
      next
        case False
        have "to_key n' \<noteq> k"
        proof
          assume "to_key n' = k"
          then have "h' \<in> pending_for to_key k s"
            using t'(1) n' unfolding pending_for_iff by (auto simp: key_of_meta_def)
          moreover have "h \<in> pending_for to_key k s"
            using t km unfolding pending_for_iff by blast
          ultimately show False using pending_at_most_one [OF w k] False by blast
        qed
        then have "armed to_key k h dl m base (fire h' s)"
          using t r False unfolding s' armed_def by (simp add: reloads_def)
        then show ?thesis using Fire by simp
      qed
    qed
  next
    case (RemoveDone h' ok)
    have "armed to_key k h dl m base (remove_settled h' ok s)"
    proof (cases "\<exists>m'. cycles s h' = Some (m', Removing)")
      case False
      then show ?thesis using a by (simp add: remove_settled_idle)
    next
      case True
      then obtain m' where m': "cycles s h' = Some (m', Removing)" by blast
      show ?thesis
        using t r
        by (cases ok)
           (simp_all add: remove_settled_fulfilled [OF m'] remove_settled_rejected [OF m']
              armed_def reloads_def)
    qed
    then show ?thesis using RemoveDone by simp
  next
    case (AddDone h' ok)
    have "armed to_key k h dl m base (add_settled h' ok s)"
    proof (cases "\<exists>m'. cycles s h' = Some (m', Adding)")
      case False
      then show ?thesis using a by (simp add: add_settled_idle)
    next
      case True
      then obtain m' where m': "cycles s h' = Some (m', Adding)" by blast
      show ?thesis
        using t r by (simp add: add_settled_any [OF m'] armed_def reloads_def)
    qed
    then show ?thesis using AddDone by simp
  qed
qed


lemma fired_step:
  assumes w: "bridge_inv to_key s" and q: "\<not> notifies to_key k ev"
    and f: "fired to_key k h dl m base s"
  shows "fired to_key k h dl m base (step to_key s ev)"
proof -
  from f have dl: "dl \<le> now s" and hb: "h < next_handle s" and t: "timers s h = None"
    and p: "pending_for to_key k s = {}"
    and cy: "\<And>m' ph. cycles s h = Some (m', ph) \<Longrightarrow> m' = m"
    and ad: "\<And>m'. AddPilet h m' \<in> set (trace s) \<Longrightarrow> m' = m"
    and pr: "reload_progress h m s"
    by (simp_all add: fired_def)
  have grow: "reload_progress h m s'"
    if "cycles s' h = cycles s h" "set (trace s) \<subseteq> set (trace s')" for s'
    using pr that unfolding reload_progress_def by auto
  from f obtain n where n: "get_prop m ''name'' = Inr n"
    and r: "reloads to_key k s = base @ [RemovePilet h n]"
    unfolding fired_def by blast
  have keep: "fired to_key k h dl m base s'"
    if "dl \<le> now s'" "h < next_handle s'" "timers s' h = None"
      "pending_for to_key k s' \<subseteq> pending_for to_key k s"
      "reloads to_key k s' = reloads to_key k s"
      "\<And>m' ph. cycles s' h = Some (m', ph) \<Longrightarrow> m' = m"
      "\<And>m'. AddPilet h m' \<in> set (trace s') \<Longrightarrow> m' = m"
      "reload_progress h m s'" for s'
    unfolding fired_def using that p n r by auto
  show ?thesis
  proof (cases ev)
    case (Message flag parsed)
    from not_notifies_message [OF q [unfolded Message], of s]
    consider "onmessage to_key flag parsed s = s"
      | "onmessage to_key flag parsed s = s\<lparr>trace := trace s @ [LocationReload]\<rparr>"
      | meta n' where "get_prop meta ''name'' = Inr n'" "to_key n' \<noteq> k"
          "onmessage to_key flag parsed s = schedule_reload (to_key n') meta s"
      by blast
    then have "fired to_key k h dl m base (onmessage to_key flag parsed s)"
    proof cases
      case 1
      then show ?thesis using f by simp
    next
      case 2
      show ?thesis unfolding 2
        by (rule keep) (use dl hb t cy ad in \<open>auto simp: pending_for_def reloads_def intro!: grow\<close>)
    next
      case 3
      show ?thesis unfolding 3(3)
      proof (rule keep)
        show "pending_for to_key k (schedule_reload (to_key n') meta s) \<subseteq> pending_for to_key k s"
          using schedule_pending_subset [of meta n' to_key k s] 3(1,2) by blast
        show "timers (schedule_reload (to_key n') meta s) h = None"
          using t hb unfolding schedule_fields clearTimeout_def by (auto split: option.splits)
        show "reload_progress h m (schedule_reload (to_key n') meta s)"
          by (rule grow) (simp_all add: schedule_fields)
      qed (use dl hb cy ad in \<open>simp_all add: schedule_fields reloads_def\<close>)
    qed
    then show ?thesis using Message by simp
  next
    case (Elapse d)
    show ?thesis unfolding Elapse step.simps
      by (rule keep) (use dl hb t cy ad in \<open>auto simp: pending_for_def reloads_def intro!: grow\<close>)
  next
    case (Fire h')
    show ?thesis
    proof (cases "\<exists>d' m'. timers s h' = Some (d', m') \<and> d' \<le> now s")
      case False
      then have "fire h' s = s" by (intro fire_disabled) (cases "timers s h'"; force)
      then show ?thesis using f Fire by simp
    next
      case True
      then obtain d' m' where t': "timers s h' = Some (d', m')" "d' \<le> now s" by blast
      from inv_timer_key [OF w t'(1)] obtain n' where
        n': "get_prop m' ''name'' = Inr n'" by blast
      note s' = fire_enabled [OF t' n']
      have ne: "h' \<noteq> h" using t t'(1) by auto
      have "to_key n' \<noteq> k"
      proof
        assume "to_key n' = k"
        then have "h' \<in> pending_for to_key k s"
          using t'(1) n' unfolding pending_for_iff by (auto simp: key_of_meta_def)
        then show False using p by simp
      qed
      then have "fired to_key k h dl m base (fire h' s)"
        unfolding s'
        by (intro keep)
           (use dl hb t cy ad ne in \<open>auto simp: pending_for_iff reloads_def split: if_splits intro!: grow\<close>)
      then show ?thesis using Fire by simp
    qed
  next
    case (RemoveDone h' ok)
    have "fired to_key k h dl m base (remove_settled h' ok s)"
    proof (cases "\<exists>m'. cycles s h' = Some (m', Removing)")
      case False
      then show ?thesis using f by (simp add: remove_settled_idle)
    next
      case True
      then obtain m' where m': "cycles s h' = Some (m', Removing)" by blast
      have same: "h' = h \<Longrightarrow> m' = m" using cy m' by blast
      have p1: "reload_progress h m
                  (s\<lparr>trace := trace s @ [RemoveSettled h' True, AddPilet h' m'],
                     cycles := (cycles s)(h' \<mapsto> (m', Adding))\<rparr>)"
      proof (cases "h' = h")
        case True
        then show ?thesis using same by (simp add: reload_progress_def)
      next
        case False
        then show ?thesis by (intro grow) auto
      qed
      have p2: "reload_progress h m
                  (s\<lparr>trace := trace s @ [RemoveSettled h' False, Unfreeze h'],
                     cycles := (cycles s)(h' := None)\<rparr>)"
      proof (cases "h' = h")
        case True
        then show ?thesis by (simp add: reload_progress_def)
      next
        case False
        then show ?thesis by (intro grow) auto
      qed
      have 1: "fired to_key k h dl m base (remove_settled h' True s)"
        unfolding remove_settled_fulfilled [OF m']
        by (rule keep)
           (use dl hb t cy ad same p1 in \<open>auto simp: pending_for_def reloads_def split: if_splits\<close>)
      have 2: "fired to_key k h dl m base (remove_settled h' False s)"
        unfolding remove_settled_rejected [OF m']
        by (rule keep)
           (use dl hb t cy ad same p2 in \<open>auto simp: pending_for_def reloads_def split: if_splits\<close>)
      show ?thesis using 1 2 by (cases ok) simp_all
    qed
    then show ?thesis using RemoveDone by simp
  next
    case (AddDone h' ok)
    have "fired to_key k h dl m base (add_settled h' ok s)"
    proof (cases "\<exists>m'. cycles s h' = Some (m', Adding)")
      case False
      then show ?thesis using f by (simp add: add_settled_idle)
    next
      case True
      then obtain m' where m': "cycles s h' = Some (m', Adding)" by blast
      have p3: "reload_progress h m
                  (s\<lparr>trace := trace s @ [AddSettled h' ok, Unfreeze h'],
                     cycles := (cycles s)(h' := None)\<rparr>)"
      proof (cases "h' = h")
        case True
        then have "cycles s h \<noteq> Some (m, Removing)" using m' by simp
        then show ?thesis using pr by (auto simp: reload_progress_def)
      next
        case False
        then show ?thesis by (intro grow) auto
      qed
      show ?thesis unfolding add_settled_any [OF m']
        by (rule keep)
           (use dl hb t cy ad p3 in \<open>auto simp: pending_for_def reloads_def split: if_splits\<close>)
    qed
    then show ?thesis using AddDone by simp
  qed
qed

lemma now_step_eq: "now (step to_key s ev) = now s + elapsed [ev]"
proof (cases ev)
  case (Message flag parsed)
  then show ?thesis
    by (simp add: onmessage_def schedule_reload_def Let_def split: sum.splits)
next
  case (Fire h)
  then show ?thesis
    by (simp add: fire_def timer_callback_def split: option.splits sum.splits)
next
  case (RemoveDone h ok)
  then show ?thesis
    by (simp add: remove_settled_def split: option.splits phase.splits)
next
  case (AddDone h ok)
  then show ?thesis
    by (simp add: add_settled_def split: option.splits phase.splits)
qed simp

lemma elapsed_Cons: "elapsed (ev # es) = elapsed [ev] + elapsed es"
  by (cases ev) simp_all

lemma now_run: "now (run to_key s es) = now s + elapsed es"
proof (induction es arbitrary: s)
  case Nil
  then show ?case by (simp add: run_def)
next
  case (Cons ev es)
  have "now (run to_key s (ev # es)) = now (run to_key (step to_key s ev) es)"
    by (simp add: run_def)
  also have "\<dots> = now s + elapsed [ev] + elapsed es"
    by (simp add: Cons.IH now_step_eq)
  finally show ?case using elapsed_Cons [of ev es] by simp
qed

lemma run_Cons: "run to_key s (ev # es) = run to_key (step to_key s ev) es"
  by (simp add: run_def)

lemma run_append: "run to_key s (xs @ ys) = run to_key (run to_key s xs) ys"
  by (simp add: run_def)

lemma quiet_run:
  assumes "bridge_inv to_key s" and "key_of_meta to_key m = Some k" and "quiet to_key k es"
    and "armed to_key k h dl m base s \<or> fired to_key k h dl m base s"
    and "k \<noteq> ''__proto__''"
  shows "armed to_key k h dl m base (run to_key s es) \<or> fired to_key k h dl m base (run to_key s es)"
  using assms
proof (induction es arbitrary: s)
  case Nil
  then show ?case by (simp add: run_def)
next
  case (Cons ev es)
  from Cons.prems(3) have q: "\<not> notifies to_key k ev" and qs: "quiet to_key k es"
    by (simp_all add: quiet_def)
  have "armed to_key k h dl m base (step to_key s ev) \<or> fired to_key k h dl m base (step to_key s ev)"
  proof (cases "armed to_key k h dl m base s")
    case True
    then show ?thesis by (rule armed_step [OF Cons.prems(1,2) q _ Cons.prems(5)])
  next
    case False
    then have "fired to_key k h dl m base s" using Cons.prems(4) by blast
    then have "fired to_key k h dl m base (step to_key s ev)"
      by (rule fired_step [OF Cons.prems(1) q])
    then show ?thesis ..
  qed
  from Cons.IH [OF inv_step [OF Cons.prems(1)] Cons.prems(2) qs this Cons.prems(5)]
  show ?case by (simp add: run_Cons)
qed

lemma quiet_before_deadline:
  assumes "bridge_inv to_key s" and "key_of_meta to_key m = Some k" and "quiet to_key k es"
    and "armed to_key k h dl m base s" and "now s + elapsed es < dl"
    and "k \<noteq> ''__proto__''"
  shows "armed to_key k h dl m base (run to_key s es)"
proof -
  have "\<not> fired to_key k h dl m base (run to_key s es)"
    using assms(5) by (simp add: fired_def now_run)
  moreover have "armed to_key k h dl m base (run to_key s es) \<or>
                 fired to_key k h dl m base (run to_key s es)"
    by (rule quiet_run [OF assms(1-3) _ assms(6)]) (use assms(4) in blast)
  ultimately show ?thesis by blast
qed


lemma notifies_cases:
  assumes "notifies to_key k ev"
  obtains flag meta where "ev = Message flag (Inr meta)" "flag \<noteq> Some ''on''"
    "key_of_meta to_key meta = Some k"
proof (cases ev)
  case (Message flag parsed)
  then show ?thesis using assms that by (cases parsed) auto
qed (use assms in simp_all)

lemma notify_arms:
  assumes w: "bridge_inv to_key s" and nt: "notifies to_key k ev"
  shows "armed to_key k (next_handle s) (now s + timeout) (payload ev) (reloads to_key k s)
           (step to_key s ev)"
    and "key_of_meta to_key (payload ev) = Some k"
proof -
  from nt obtain flag meta where ev: "ev = Message flag (Inr meta)" and fl: "flag \<noteq> Some ''on''"
    and km: "key_of_meta to_key meta = Some k"
    by (rule notifies_cases)
  from km obtain n where n: "get_prop meta ''name'' = Inr n" "to_key n = k"
    unfolding key_of_meta_Some by blast
  have "step to_key s ev = schedule_reload k meta s"
    using ev fl n by (simp add: onmessage_def)
  then show "armed to_key k (next_handle s) (now s + timeout) (payload ev) (reloads to_key k s)
           (step to_key s ev)"
    using ev by (simp add: armed_def schedule_fields reloads_def)
  show "key_of_meta to_key (payload ev) = Some k" using ev km by simp
qed

lemma burst_arms:
  assumes "bridge_inv to_key s" and "bs \<noteq> []" and "list_all (in_burst to_key k) bs"
    and "k \<noteq> ''__proto__''"
  shows "\<exists>h dl. armed to_key k h dl (payload (fst (last bs))) (reloads to_key k s)
                  (run to_key s (burst bs)) \<and>
                dl + elapsed (snd (last bs)) = now (run to_key s (burst bs)) + timeout"
  using assms
proof (induction bs arbitrary: s)
  case Nil
  then show ?case by simp
next
  case (Cons b bs)
  obtain ev es where b: "b = (ev, es)" by (cases b)
  from Cons.prems(3) b have ib: "in_burst to_key k (ev, es)"
    and rest: "list_all (in_burst to_key k) bs"
    by simp_all
  from ib have nt: "notifies to_key k ev" and q: "quiet to_key k es"
    and el: "elapsed es < timeout"
    by (simp_all add: in_burst_def)
  let ?sa = "step to_key s ev"
  let ?sb = "run to_key ?sa es"
  note w = Cons.prems(1)
  have wa: "bridge_inv to_key ?sa" by (rule inv_step [OF w])
  have wb: "bridge_inv to_key ?sb" by (rule inv_run [OF wa])
  note arm = notify_arms [OF w nt]
  have na: "now ?sa = now s"
    using nt now_step_eq [of to_key s ev] by (auto elim!: notifies_cases)
  have ab: "armed to_key k (next_handle s) (now s + timeout) (payload ev) (reloads to_key k s) ?sb"
    by (rule quiet_before_deadline [OF wa arm(2) q arm(1) _ Cons.prems(4)]) (use na el in simp)
  have nb: "now ?sb = now s + elapsed es" by (simp add: now_run na)
  have run: "run to_key s (burst (b # bs)) = run to_key ?sb (burst bs)"
    by (simp add: b run_Cons run_append)
  show ?case
  proof (cases "bs = []")
    case True
    then show ?thesis using ab nb b by (auto simp: run_def)
  next
    case False
    from ab have "reloads to_key k ?sb = reloads to_key k s" by (simp add: armed_def)
    with Cons.IH [OF wb False rest Cons.prems(4)] show ?thesis
      unfolding run using False by simp
  qed
qed

text \<open>
  Debouncing for every module name but \<^verbatim>\<open>__proto__\<close>. Take any reachable state
  \<open>s0\<close> and then a burst: one or more notifications filed under the same key \<open>k\<close>,
  each followed by less than 150 ms of other events (timers running, promises settling,
  notifications for other keys) before the next. Then, for the timer \<open>h\<close> set by the
  last notification and its payload \<open>m\<close>:
  \<^item> in \<open>s0\<close>, as in every reachable state, at most one timer is pending for \<open>k\<close>;
  \<^item> at the end of the burst no reload for \<open>k\<close> has started since \<open>s0\<close>, and the
    one pending timer for \<open>k\<close> is \<open>h\<close>, carrying \<open>m\<close>: each notification has
    replaced the timer of the one before;
  \<^item> whatever happens afterwards short of a new notification for \<open>k\<close>, either \<open>h\<close>
    is still the one pending timer and no reload has started, or no timer is pending
    and exactly one reload has started, by \<^verbatim>\<open>removePilet\<close> with the name in \<open>m\<close>;
    its teardown is then still running, or was rejected, or \<^verbatim>\<open>addPilet\<close> has been
    called with \<open>m\<close>; while it is running, its fulfilment calls \<^verbatim>\<open>addPilet\<close>
    with \<open>m\<close>; and nothing but \<open>m\<close> is ever handed to \<^verbatim>\<open>addPilet\<close> by this cycle;
  \<^item> once 150 ms have passed since the last notification the timer is due: when the
    browser runs it, the second case holds.
\<close>

theorem debounce_one_reload:
  assumes ne: "bs \<noteq> []" and bu: "list_all (in_burst to_key k) bs"
    and qa: "quiet to_key k after"
    and k: "k \<noteq> ''__proto__''"
    and s0: "s0 = run to_key initial_bridge before"
    and s1: "s1 = run to_key s0 (burst bs)"
    and s2: "s2 = run to_key s1 after"
    and m: "m = payload (fst (last bs))"
  shows "\<exists>h n.
      get_prop m ''name'' = Inr n \<and> to_key n = k \<and>
      (\<forall>h1 h2. h1 \<in> pending_for to_key k s0 \<and> h2 \<in> pending_for to_key k s0 \<longrightarrow> h1 = h2) \<and>
      reloads to_key k s1 = reloads to_key k s0 \<and>
      pending_for to_key k s1 = {h} \<and>
      (\<exists>dl. timers s1 h = Some (dl, m)) \<and>
      (pending_for to_key k s2 = {h} \<and> reloads to_key k s2 = reloads to_key k s0
       \<or> pending_for to_key k s2 = {} \<and>
         reloads to_key k s2 = reloads to_key k s0 @ [RemovePilet h n] \<and>
         (\<forall>m'. AddPilet h m' \<in> set (trace s2) \<longrightarrow> m' = m) \<and>
         reload_progress h m s2 \<and>
         (cycles s2 h = Some (m, Removing) \<longrightarrow>
            trace (step to_key s2 (RemoveDone h True)) =
              trace s2 @ [RemoveSettled h True, AddPilet h m])) \<and>
      (timeout \<le> elapsed (snd (last bs)) + elapsed after \<longrightarrow>
         pending_for to_key k (step to_key s2 (Fire h)) = {} \<and>
         reloads to_key k (step to_key s2 (Fire h)) = reloads to_key k s0 @ [RemovePilet h n] \<and>
         (\<forall>m'. AddPilet h m' \<in> set (trace (step to_key s2 (Fire h))) \<longrightarrow> m' = m) \<and>
         reload_progress h m (step to_key s2 (Fire h)) \<and>
         (cycles (step to_key s2 (Fire h)) h = Some (m, Removing) \<longrightarrow>
            trace (step to_key (step to_key s2 (Fire h)) (RemoveDone h True)) =
              trace (step to_key s2 (Fire h)) @ [RemoveSettled h True, AddPilet h m]))"
proof -
  let ?base = "reloads to_key k s0"
  have w0: "bridge_inv to_key s0" unfolding s0 by (rule inv_reachable)
  have w1: "bridge_inv to_key s1" unfolding s1 by (rule inv_run [OF w0])
  have w2: "bridge_inv to_key s2" unfolding s2 by (rule inv_run [OF w1])
  from burst_arms [OF w0 ne bu k] obtain h dl where
    a1: "armed to_key k h dl m ?base s1" and dl: "dl + elapsed (snd (last bs)) = now s1 + timeout"
    unfolding s1 m by blast
  have "in_burst to_key k (last bs)" using ne bu by (simp add: list_all_iff)
  then have "notifies to_key k (fst (last bs))" by (simp add: in_burst_def)
  then have km: "key_of_meta to_key m = Some k"
    unfolding m by (auto elim!: notifies_cases)
  then obtain n where n: "get_prop m ''name'' = Inr n" "to_key n = k"
    unfolding key_of_meta_Some by blast
  have one: "h1 = h2" if "h1 \<in> pending_for to_key k s0 \<and> h2 \<in> pending_for to_key k s0" for h1 h2
    using that pending_at_most_one [OF w0 k] by blast
  have p1: "pending_for to_key k s1 = {h}" by (rule armed_pending [OF w1 a1 km k])
  have r1: "reloads to_key k s1 = ?base" and t1: "timers s1 h = Some (dl, m)"
    using a1 by (simp_all add: armed_def)
  have af2: "armed to_key k h dl m ?base s2 \<or> fired to_key k h dl m ?base s2"
    unfolding s2 by (rule quiet_run [OF w1 km qa _ k]) (use a1 in blast)
  have fulfil: "trace (step to_key s (RemoveDone h True)) =
                  trace s @ [RemoveSettled h True, AddPilet h m]"
    if "cycles s h = Some (m, Removing)" for s
    by (simp add: remove_settled_fulfilled [OF that])
  have from_fired: "pending_for to_key k s = {} \<and>
         reloads to_key k s = ?base @ [RemovePilet h n] \<and>
         (\<forall>m'. AddPilet h m' \<in> set (trace s) \<longrightarrow> m' = m) \<and>
         reload_progress h m s \<and>
         (cycles s h = Some (m, Removing) \<longrightarrow>
            trace (step to_key s (RemoveDone h True)) =
              trace s @ [RemoveSettled h True, AddPilet h m])"
    if f: "fired to_key k h dl m ?base s" for s
  proof -
    from f have "pending_for to_key k s = {}"
      and "\<forall>m'. AddPilet h m' \<in> set (trace s) \<longrightarrow> m' = m"
      and "reload_progress h m s"
      by (simp_all add: fired_def)
    moreover from f n have "reloads to_key k s = ?base @ [RemovePilet h n]"
      unfolding fired_def by auto
    ultimately show ?thesis using fulfil [of s] by blast
  qed
  have c2: "pending_for to_key k s2 = {h} \<and> reloads to_key k s2 = ?base
       \<or> pending_for to_key k s2 = {} \<and>
         reloads to_key k s2 = ?base @ [RemovePilet h n] \<and>
         (\<forall>m'. AddPilet h m' \<in> set (trace s2) \<longrightarrow> m' = m) \<and>
         reload_progress h m s2 \<and>
         (cycles s2 h = Some (m, Removing) \<longrightarrow>
            trace (step to_key s2 (RemoveDone h True)) =
              trace s2 @ [RemoveSettled h True, AddPilet h m])"
    using af2
  proof
    assume a2: "armed to_key k h dl m ?base s2"
    then show ?thesis using armed_pending [OF w2 a2 km k] by (simp add: armed_def)
  next
    assume "fired to_key k h dl m ?base s2"
    from from_fired [OF this] show ?thesis by blast
  qed
  have c3: "pending_for to_key k (step to_key s2 (Fire h)) = {} \<and>
         reloads to_key k (step to_key s2 (Fire h)) = ?base @ [RemovePilet h n] \<and>
         (\<forall>m'. AddPilet h m' \<in> set (trace (step to_key s2 (Fire h))) \<longrightarrow> m' = m) \<and>
         reload_progress h m (step to_key s2 (Fire h)) \<and>
         (cycles (step to_key s2 (Fire h)) h = Some (m, Removing) \<longrightarrow>
            trace (step to_key (step to_key s2 (Fire h)) (RemoveDone h True)) =
              trace (step to_key s2 (Fire h)) @ [RemoveSettled h True, AddPilet h m])"
    if due: "timeout \<le> elapsed (snd (last bs)) + elapsed after"
  proof -
    have now2: "now s2 = now s1 + elapsed after" unfolding s2 by (rule now_run)
    have dl2: "dl \<le> now s2" using dl due now2 by simp
    have nn: "\<not> notifies to_key k (Fire h)" by simp
    have "fired to_key k h dl m ?base (step to_key s2 (Fire h))"
      using af2
    proof
      assume a2: "armed to_key k h dl m ?base s2"
      then have t2: "timers s2 h = Some (dl, m)" by (simp add: armed_def)
      have "timers (step to_key s2 (Fire h)) h = None"
        by (simp add: fire_enabled [OF t2 dl2 n(1)])
      then have "\<not> armed to_key k h dl m ?base (step to_key s2 (Fire h))"
        by (simp add: armed_def)
      then show ?thesis using armed_step [OF w2 km nn a2 k] by blast
    next
      assume "fired to_key k h dl m ?base s2"
      then show ?thesis by (rule fired_step [OF w2 nn])
    qed
    from from_fired [OF this] show ?thesis .
  qed
  show ?thesis
    using n one p1 r1 t1 c2 c3 by blast
qed

text \<open>Five notifications for \<^verbatim>\<open>a\<close> in 50 ms and the timer run 150 ms after the last
  one: one reload, with the fifth payload.\<close>

theorem debounce_one_reload_witness:
  "\<exists>h. pending_for string_key ''a''
          (step string_key (run string_key (run string_key (run string_key initial_bridge [])
             (burst demo_burst)) [Elapse 140]) (Fire h)) = {} \<and>
       reloads string_key ''a''
          (step string_key (run string_key (run string_key (run string_key initial_bridge [])
             (burst demo_burst)) [Elapse 140]) (Fire h)) = [RemovePilet h (JStr ''a'')] \<and>
       (\<forall>m'. AddPilet h m' \<in> set (trace
          (step string_key (run string_key (run string_key (run string_key initial_bridge [])
             (burst demo_burst)) [Elapse 140]) (Fire h))) \<longrightarrow> m' = demo_meta 5) \<and>
       reload_progress h (demo_meta 5)
          (step string_key (run string_key (run string_key (run string_key initial_bridge [])
             (burst demo_burst)) [Elapse 140]) (Fire h))"
proof -
  have 1: "demo_burst \<noteq> []" by (simp add: demo_burst_def)
  have 2: "list_all (in_burst string_key ''a'') demo_burst"
    by (simp add: demo_burst_def in_burst_def quiet_def key_of_meta_def get_prop_def
          string_key_def demo_meta_def timeout_def)
  have 3: "quiet string_key ''a'' [Elapse 140]" by (simp add: quiet_def)
  have 4: "demo_meta 5 = payload (fst (last demo_burst))" by (simp add: demo_burst_def)
  have 5: "timeout \<le> elapsed (snd (last demo_burst)) + elapsed [Elapse 140]"
    by (simp add: demo_burst_def timeout_def)
  have 6: "reloads string_key ''a'' (run string_key initial_bridge []) = []"
    by (simp add: run_def initial_bridge_def reloads_def)
  have 7: "get_prop (demo_meta 5) ''name'' = Inr (JStr ''a'')"
    by (simp add: demo_meta_def get_prop_def)
  have 8: "''a'' \<noteq> ''__proto__''" by simp
  from debounce_one_reload [where before = "[]", OF 1 2 3 8 refl refl refl 4]
  show ?thesis using 5 6 7 by auto
qed

text \<open>
  Claim C3 at a module named \<^verbatim>\<open>__proto__\<close>. The handler reads and writes
  \<^verbatim>\<open>timeoutCache['__proto__']\<close>, where nothing can be stored, so no notification
  clears the timer of the one before: the five notifications of the burst leave five
  pending timers, one per payload, where the claim has at most one; and once they have
  run, five reload cycles have started, one per payload, where the claim has one cycle
  with the last payload.
\<close>

theorem proto_name_not_debounced:
  "map (timers (run string_key initial_bridge (burst proto_burst))) [0, 1, 2, 3, 4] =
     [Some (150, proto_meta 1), Some (160, proto_meta 2), Some (170, proto_meta 3),
      Some (180, proto_meta 4), Some (190, proto_meta 5)] \<and>
   reloads string_key ''__proto__'' (run string_key initial_bridge proto_events) =
     [RemovePilet 0 (JStr ''__proto__''), RemovePilet 1 (JStr ''__proto__''),
      RemovePilet 2 (JStr ''__proto__''), RemovePilet 3 (JStr ''__proto__''),
      RemovePilet 4 (JStr ''__proto__'')] \<and>
   map (cycles (run string_key initial_bridge proto_events)) [0, 1, 2, 3, 4] =
     [Some (proto_meta 1, Removing), Some (proto_meta 2, Removing),
      Some (proto_meta 3, Removing), Some (proto_meta 4, Removing),
      Some (proto_meta 5, Removing)]"
  by (simp add: proto_events_def proto_burst_def proto_meta_def run_def initial_bridge_def
        onmessage_def schedule_reload_def clearTimeout_def cache_read_def cache_write_def
        get_prop_def string_key_def timeout_def fire_def timer_callback_def reloads_def)

section \<open>Properties of the generated dependency table\<close>



























end
